theory Spec2Isabelle
  imports Main "HOL-Library.Word"
begin

unbundle bit_operations_syntax

section \<open>GF(256) arithmetic (recover_seed.py, lines 5-31)\<close>

text \<open>
  Python integers are unbounded, so the field functions are modelled on \<open>int\<close>;
  \<open>^\<close>, \<open>&\<close>, \<open><<\<close> and \<open>>>\<close> are \<open>XOR\<close>, \<open>AND\<close>, \<open>push_bit\<close> and \<open>drop_bit\<close>,
  which agree with Python on negative numbers as well (two's complement).
\<close>

definition gf256_add :: "int \<Rightarrow> int \<Rightarrow> int" where
  "gf256_add a b = a XOR b"

definition gf256_sub :: "int \<Rightarrow> int \<Rightarrow> int" where
  "gf256_sub a b = a XOR b"

text \<open>One pass through the body of the \<open>for _ in range(8)\<close> loop of \<open>_gf256_mul\<close>,
  on the loop state \<open>(p, a, b)\<close>.\<close>

definition mul_step :: "int \<times> int \<times> int \<Rightarrow> int \<times> int \<times> int" where
  "mul_step s = (case s of (p, a, b) \<Rightarrow>
     let p1 = (if b AND 1 \<noteq> 0 then p XOR a else p);
         carry = a AND 0x80;
         a1 = push_bit 1 a;
         a2 = (if carry \<noteq> 0 then a1 XOR 0x11b else a1);
         b1 = drop_bit 1 b
     in (p1, a2, b1))"

fun mul_loop :: "nat \<Rightarrow> int \<times> int \<times> int \<Rightarrow> int \<times> int \<times> int" where
  "mul_loop 0 s = s"
| "mul_loop (Suc n) s = mul_loop n (mul_step s)"

definition gf256_mul :: "int \<Rightarrow> int \<Rightarrow> int" where
  "gf256_mul a b = (case mul_loop 8 (0, a AND 0xff, b AND 0xff) of (p, _, _) \<Rightarrow> p AND 0xff)"

text \<open>The search \<open>for b in range(1, 256)\<close> of \<open>_gf256_inverse\<close>: the first hit is
  returned, and 0 when the range is exhausted.\<close>

fun inverse_loop :: "int \<Rightarrow> int list \<Rightarrow> int" where
  "inverse_loop a [] = 0"
| "inverse_loop a (b # bs) = (if gf256_mul a b = 1 then b else inverse_loop a bs)"

definition gf256_inverse :: "int \<Rightarrow> int" where
  "gf256_inverse a = (if a = 0 then 0 else inverse_loop a [1..255])"

section \<open>Python values used by the codec\<close>

text \<open>
  A \<open>bytes\<close> object is a list of 8-bit words; indexing it yields the integer \<open>uint b\<close>.
  A \<open>str\<close> is a \<open>string\<close> whose characters stand for the code points below 256.
  Every \<open>raise\<close> of the source and every exception of a built-in it calls is a value
  of \<open>error\<close>; \<open>NotInList w\<close> is the \<open>ValueError\<close> that \<open>list.index\<close> raises for an
  absent element \<open>w\<close>.
\<close>

type_synonym byte = "8 word"

datatype error = ValueError string | NotInList string | IndexError

text \<open>The range check of \<open>bytes(...)\<close> and \<open>bytearray.append\<close> on an integer element.\<close>

definition to_byte :: "int \<Rightarrow> error + byte" where
  "to_byte v = (if 0 \<le> v \<and> v < 256 then Inr (word_of_int v)
                else Inl (ValueError ''byte must be in range(0, 256)''))"

text \<open>Evaluating a sequence of fallible computations in order: the first exception wins.\<close>

fun collect :: "(error + 'a) list \<Rightarrow> error + 'a list" where
  "collect [] = Inr []"
| "collect (x # xs) =
     (case x of Inl e \<Rightarrow> Inl e
      | Inr v \<Rightarrow> (case collect xs of Inl e \<Rightarrow> Inl e | Inr vs \<Rightarrow> Inr (v # vs)))"

text \<open>\<open>str.split()\<close> without arguments: the maximal runs of non-whitespace characters.
  \<open>is_space\<close> lists the code points below 256 for which \<open>str.isspace\<close> holds.\<close>

definition is_space :: "char \<Rightarrow> bool" where
  "is_space c = (let n = (of_char c :: nat) in
     (9 \<le> n \<and> n \<le> 13) \<or> (28 \<le> n \<and> n \<le> 32) \<or> n = 133 \<or> n = 160)"

fun split_ws :: "string \<Rightarrow> string \<Rightarrow> string list" where
  "split_ws cur [] = (if cur = [] then [] else [cur])"
| "split_ws cur (c # cs) =
     (if is_space c then (if cur = [] then split_ws [] cs else cur # split_ws [] cs)
      else split_ws (cur @ [c]) cs)"

definition py_split :: "string \<Rightarrow> string list" where
  "py_split s = split_ws [] s"

text \<open>\<open>' '.join(words)\<close>.\<close>

fun join_space :: "string list \<Rightarrow> string" where
  "join_space [] = []"
| "join_space [w] = w"
| "join_space (w # ws) = w @ [CHR '' ''] @ join_space ws"

text \<open>\<open>bin(n)\<close>, with its \<open>0b\<close> prefix and the sign in front of it.\<close>

fun bin_digits :: "nat \<Rightarrow> string" where
  "bin_digits n =
     (if n < 2 then [if n = 0 then CHR ''0'' else CHR ''1'']
      else bin_digits (n div 2) @ [if n mod 2 = 0 then CHR ''0'' else CHR ''1''])"

definition py_bin :: "int \<Rightarrow> string" where
  "py_bin n = (if n < 0 then ''-0b'' @ bin_digits (nat (- n)) else ''0b'' @ bin_digits (nat n))"

text \<open>\<open>s.zfill(width)\<close>: zeros are inserted after a leading sign.\<close>

definition zfill :: "nat \<Rightarrow> string \<Rightarrow> string" where
  "zfill width s =
     (if width \<le> length s then s
      else case s of
        c # rest \<Rightarrow>
          (if c = CHR ''+'' \<or> c = CHR ''-'' then c # replicate (width - length s) CHR ''0'' @ rest
           else replicate (width - length s) CHR ''0'' @ s)
      | [] \<Rightarrow> replicate width CHR ''0'')"

text \<open>
  \<open>int(s, 2)\<close> on a non-empty string of binary digits. Python accepts further forms
  (a sign, a \<open>0b\<close> prefix, underscores, surrounding whitespace); the strings that reach
  \<open>int\<close> in this program are slices of concatenated \<open>bin\<close> digits of non-negative numbers,
  and every other string is answered with \<open>ValueError\<close>.
\<close>

definition is_binary :: "string \<Rightarrow> bool" where
  "is_binary s = list_all (\<lambda>c. c = CHR ''0'' \<or> c = CHR ''1'') s"

definition bits_value :: "string \<Rightarrow> int" where
  "bits_value s = foldl (\<lambda>v c. 2 * v + (if c = CHR ''1'' then 1 else 0)) 0 s"

definition py_int2 :: "string \<Rightarrow> error + int" where
  "py_int2 s = (if s \<noteq> [] \<and> is_binary s then Inr (bits_value s)
                else Inl (ValueError ''invalid literal for int() with base 2''))"

text \<open>\<open>word_list.index(word)\<close>: the position of the first occurrence.\<close>

fun py_index :: "string list \<Rightarrow> string \<Rightarrow> error + nat" where
  "py_index [] w = Inl (NotInList w)"
| "py_index (x # xs) w =
     (if x = w then Inr 0
      else case py_index xs w of Inl e \<Rightarrow> Inl e | Inr i \<Rightarrow> Inr (Suc i))"

text \<open>\<open>word_list[idx]\<close>: a negative index counts from the end.\<close>

definition py_getitem :: "'a list \<Rightarrow> int \<Rightarrow> error + 'a" where
  "py_getitem xs i =
     (if 0 \<le> i \<and> i < int (length xs) then Inr (xs ! nat i)
      else if i < 0 \<and> - int (length xs) \<le> i then Inr (xs ! nat (int (length xs) + i))
      else Inl IndexError)"

section \<open>The mnemonic codec (recover_seed.py, lines 38-64)\<close>

definition mnemonic_to_bytes :: "string \<Rightarrow> string list \<Rightarrow> error + byte list" where
  "mnemonic_to_bytes mnemonic word_list =
     (let words = py_split mnemonic in
      if length words \<noteq> 12 then Inl (ValueError ''Mnemonic must have 12 words'')
      else case collect (map (py_index word_list) words) of
        Inl e \<Rightarrow> Inl e
      | Inr indices \<Rightarrow>
          let bit_string = concat (map (\<lambda>idx. zfill 11 (drop 2 (py_bin (int idx)))) indices) in
          if length bit_string \<noteq> 132 then Inl (ValueError ''Bit string length error'')
          else
            let entropy_bits = take 128 bit_string in
            collect (map (\<lambda>i. case py_int2 (take 8 (drop i entropy_bits)) of
                                  Inl e \<Rightarrow> Inl e | Inr v \<Rightarrow> to_byte v)
                         (map (\<lambda>k. 8 * k) [0..<16])))"

text \<open>The loop \<open>for i in range(0, 132, 11)\<close> of \<open>bytes_to_mnemonic\<close>, on the list of
  offsets still to visit and the words appended so far.\<close>

fun words_loop :: "string \<Rightarrow> string list \<Rightarrow> nat list \<Rightarrow> string list \<Rightarrow> error + string list" where
  "words_loop total_bits word_list [] words = Inr words"
| "words_loop total_bits word_list (i # rest) words =
     (case py_int2 (take 11 (drop i total_bits)) of
        Inl e \<Rightarrow> Inl e
      | Inr idx \<Rightarrow>
          (case py_getitem word_list idx of
             Inl e \<Rightarrow> Inl e
           | Inr w \<Rightarrow> words_loop total_bits word_list rest (words @ [w])))"

text \<open>
  \<open>bytes_to_mnemonic\<close> up to the end of its loop (lines 51-63); the parameter \<open>sha256\<close>
  stands for \<open>hashlib.sha256(...).digest()\<close>, which is library code.
\<close>

definition mnemonic_words ::
  "(byte list \<Rightarrow> byte list) \<Rightarrow> byte list \<Rightarrow> string list \<Rightarrow> error + string list" where
  "mnemonic_words sha256 entropy_bytes word_list =
     (if length entropy_bytes \<noteq> 16 then Inl (ValueError ''Entropy must be 16 bytes'')
      else
        let entropy_bits = concat (map (\<lambda>b. zfill 8 (drop 2 (py_bin (uint b)))) entropy_bytes);
            hash_bytes = sha256 entropy_bytes
        in case hash_bytes of
          [] \<Rightarrow> Inl IndexError
        | h # _ \<Rightarrow>
            let hash_bits = zfill 8 (drop 2 (py_bin (uint h)));
                checksum = take 4 hash_bits;
                total_bits = entropy_bits @ checksum
            in if length total_bits \<noteq> 132 then Inl (ValueError ''Total bits should be 132'')
               else words_loop total_bits word_list (map (\<lambda>k. 11 * k) [0..<12]) [])"

definition bytes_to_mnemonic ::
  "(byte list \<Rightarrow> byte list) \<Rightarrow> byte list \<Rightarrow> string list \<Rightarrow> error + string" where
  "bytes_to_mnemonic sha256 entropy_bytes word_list =
     (case mnemonic_words sha256 entropy_bytes word_list of
        Inl e \<Rightarrow> Inl e
      | Inr words \<Rightarrow> Inr (join_space words))"

section \<open>Seed derivation (recover_seed.py, lines 66-70)\<close>

text \<open>\<open>str.encode('utf-8')\<close> on code points below 256, and \<open>bytes.hex()\<close>.\<close>

definition utf8_char :: "char \<Rightarrow> byte list" where
  "utf8_char c = (let n = (of_char c :: nat) in
     if n < 128 then [of_nat n] else [of_nat (192 + n div 64), of_nat (128 + n mod 64)])"

definition utf8_encode :: "string \<Rightarrow> byte list" where
  "utf8_encode s = concat (map utf8_char s)"

definition hex_digit :: "nat \<Rightarrow> char" where
  "hex_digit n = ''0123456789abcdef'' ! n"

definition bytes_hex :: "byte list \<Rightarrow> string" where
  "bytes_hex bs = concat (map (\<lambda>b. [hex_digit (unat b div 16), hex_digit (unat b mod 16)]) bs)"

text \<open>
  The parameter \<open>pbkdf2_hmac\<close> stands for \<open>hashlib.pbkdf2_hmac(hash_name, password, salt,
  iterations)\<close>, which is library code. \<open>mnemonic_to_seed_default\<close> is the call that leaves
  the optional passphrase out.
\<close>

definition mnemonic_to_seed ::
  "(string \<Rightarrow> byte list \<Rightarrow> byte list \<Rightarrow> nat \<Rightarrow> byte list) \<Rightarrow> string \<Rightarrow> string \<Rightarrow> string" where
  "mnemonic_to_seed pbkdf2_hmac mnemonic passphrase =
     (let mnemonic_bytes = utf8_encode mnemonic;
          salt = utf8_encode (''mnemonic'' @ passphrase);
          seed = pbkdf2_hmac ''sha512'' mnemonic_bytes salt 2048
      in bytes_hex seed)"

definition mnemonic_to_seed_default ::
  "(string \<Rightarrow> byte list \<Rightarrow> byte list \<Rightarrow> nat \<Rightarrow> byte list) \<Rightarrow> string \<Rightarrow> string" where
  "mnemonic_to_seed_default pbkdf2_hmac mnemonic = mnemonic_to_seed pbkdf2_hmac mnemonic []"

section \<open>Reconstruction of the secret (recover_seed.py, lines 82-94)\<close>

text \<open>
  The loop \<open>for i in range(len(share1_bytes))\<close> of \<open>main\<close>, on the positions still to
  visit and the \<open>bytearray\<close> built so far. Reading \<open>share1_bytes[i]\<close> or \<open>share2_bytes[i]\<close>
  past the end raises \<open>IndexError\<close>.
\<close>

fun reconstruct_loop ::
  "int \<Rightarrow> byte list \<Rightarrow> byte list \<Rightarrow> nat list \<Rightarrow> byte list \<Rightarrow> error + byte list" where
  "reconstruct_loop inv_3 share1_bytes share2_bytes [] secret_bytes = Inr secret_bytes"
| "reconstruct_loop inv_3 share1_bytes share2_bytes (i # rest) secret_bytes =
     (if length share1_bytes \<le> i then Inl IndexError
      else if length share2_bytes \<le> i then Inl IndexError
      else
        let y1 = uint (share1_bytes ! i);
            y2 = uint (share2_bytes ! i);
            b_i = gf256_mul (gf256_add y1 y2) inv_3;
            a_i = gf256_add y1 b_i
        in case to_byte a_i of
             Inl e \<Rightarrow> Inl e
           | Inr v \<Rightarrow> reconstruct_loop inv_3 share1_bytes share2_bytes rest (secret_bytes @ [v]))"

definition reconstruct :: "byte list \<Rightarrow> byte list \<Rightarrow> error + byte list" where
  "reconstruct share1_bytes share2_bytes =
     (let inv_3 = gf256_inverse 3
      in reconstruct_loop inv_3 share1_bytes share2_bytes [0..<length share1_bytes] [])"

section \<open>Notions used in the statements\<close>

text \<open>The byte that one pass of the loop appends (lines 88-92), as a byte value.\<close>

definition secret_byte :: "int \<Rightarrow> byte \<Rightarrow> byte \<Rightarrow> byte" where
  "secret_byte inv_3 y1 y2 =
     word_of_int (gf256_add (uint y1) (gf256_mul (gf256_add (uint y1) (uint y2)) inv_3))"

text \<open>The recursion of \<open>bin_digits\<close> is unfolded by hand only.\<close>

declare bin_digits.simps [simp del]

text \<open>The \<open>k\<close> low bits of \<open>n\<close>, most significant first, as a string of binary digits.\<close>

definition bit_char :: "nat \<Rightarrow> char" where
  "bit_char n = (if n mod 2 = 0 then CHR ''0'' else CHR ''1'')"

fun to_bits :: "nat \<Rightarrow> nat \<Rightarrow> string" where
  "to_bits 0 n = []"
| "to_bits (Suc k) n = to_bits k (n div 2) @ [bit_char n]"

text \<open>A word that \<open>split\<close> returns unchanged: non-empty and free of whitespace.\<close>

definition plain_word :: "string \<Rightarrow> bool" where
  "plain_word w = (w \<noteq> [] \<and> list_all (\<lambda>c. \<not> is_space c) w)"

text \<open>The bytes read off the first 128 characters of a bit string (line 47).\<close>

definition entropy_of_bits :: "string \<Rightarrow> byte list" where
  "entropy_of_bits entropy_bits =
     map (\<lambda>k. word_of_int (bits_value (take 8 (drop (8 * k) entropy_bits)))) [0..<16]"

text \<open>The value of \<open>total_bits\<close> (line 57) for a non-empty digest, and the index that
  line 62 computes for the \<open>k\<close>-th group of eleven bits.\<close>

definition total_bits_of :: "(byte list \<Rightarrow> byte list) \<Rightarrow> byte list \<Rightarrow> string" where
  "total_bits_of sha256 entropy_bytes =
     concat (map (\<lambda>b. zfill 8 (drop 2 (py_bin (uint b)))) entropy_bytes) @
     take 4 (zfill 8 (drop 2 (py_bin (uint (hd (sha256 entropy_bytes))))))"

definition group_index :: "string \<Rightarrow> nat \<Rightarrow> nat" where
  "group_index total_bits k = nat (bits_value (take 11 (drop (11 * k) total_bits)))"

text \<open>
  Concrete inputs for the examples: a digest function that returns 32 zero bytes, a list
  of 2048 distinct words \<open>a\<close>, \<open>aa\<close>, \<open>aaa\<close>, ..., and a list of 2048 distinct words that
  all start with \<open>a b\<close>.
\<close>

definition zero_digest :: "byte list \<Rightarrow> byte list" where
  "zero_digest entropy_bytes = replicate 32 0"

definition sample_wordlist :: "string list" where
  "sample_wordlist = map (\<lambda>i. replicate (Suc i) CHR ''a'') [0..<2048]"

definition spaced_wordlist :: "string list" where
  "spaced_wordlist = map (\<lambda>i. ''a b'' @ replicate i CHR ''c'') [0..<2048]"

text \<open>A digest function whose result starts with the byte 0x37.\<close>

definition digest_37 :: "byte list \<Rightarrow> byte list" where
  "digest_37 entropy_bytes = 0x37 # replicate 31 0"

section \<open>Field algebra\<close>

lemma and_128_bit: "((a::int) AND 128 \<noteq> 0) = bit a 7"
proof -
  have "(128::int) = 2 ^ 7" by simp
  then show ?thesis using and_exp_eq_0_iff_not_bit [of a 7] by presburger
qed

lemma and_1_bit: "((b::int) AND 1 \<noteq> 0) = bit b 0"
  using and_exp_eq_0_iff_not_bit [of b 0] by simp

lemma mul_step_alt:
  "mul_step (p, a, b) =
     (if bit b 0 then p XOR a else p,
      if bit a 7 then push_bit 1 a XOR 283 else push_bit 1 a,
      drop_bit 1 b)"
  by (simp add: mul_step_def Let_def and_128_bit and_1_bit)

lemma mul_step_xor_left:
  "mul_step (p XOR q, a XOR a', b) =
     (fst (mul_step (p, a, b)) XOR fst (mul_step (q, a', b)),
      fst (snd (mul_step (p, a, b))) XOR fst (snd (mul_step (q, a', b))),
      drop_bit 1 b)"
  by (simp add: mul_step_alt bit_xor_iff push_bit_xor ac_simps)

lemma mul_step_xor_right:
  "mul_step (p XOR q, a, b XOR c) =
     (fst (mul_step (p, a, b)) XOR fst (mul_step (q, a, c)),
      fst (snd (mul_step (p, a, b))),
      drop_bit 1 b XOR drop_bit 1 c)"
  by (simp add: mul_step_alt bit_xor_iff drop_bit_xor ac_simps)

lemma mul_step_components:
  "snd (snd (mul_step (p, a, b))) = drop_bit 1 b"
  "fst (snd (mul_step (p, a, b))) = fst (snd (mul_step (q, a, c)))"
  by (simp_all add: mul_step_alt)

lemma mul_loop_xor_left:
  "fst (mul_loop n (p XOR q, a XOR a', b)) =
     fst (mul_loop n (p, a, b)) XOR fst (mul_loop n (q, a', b))"
proof (induction n arbitrary: p q a a' b)
  case 0
  show ?case by simp
next
  case (Suc n)
  obtain p1 a1 where s1: "mul_step (p, a, b) = (p1, a1, drop_bit 1 b)"
    by (simp add: mul_step_alt)
  obtain p2 a2 where s2: "mul_step (q, a', b) = (p2, a2, drop_bit 1 b)"
    by (simp add: mul_step_alt)
  have "mul_step (p XOR q, a XOR a', b) = (p1 XOR p2, a1 XOR a2, drop_bit 1 b)"
    by (simp add: mul_step_xor_left s1 s2)
  then show ?case by (simp add: s1 s2 Suc.IH)
qed

lemma mul_loop_xor_right:
  "fst (mul_loop n (p XOR q, a, b XOR c)) =
     fst (mul_loop n (p, a, b)) XOR fst (mul_loop n (q, a, c))"
proof (induction n arbitrary: p q a b c)
  case 0
  show ?case by simp
next
  case (Suc n)
  obtain p1 a1 where s1: "mul_step (p, a, b) = (p1, a1, drop_bit 1 b)"
    by (simp add: mul_step_alt)
  obtain p2 where s2: "mul_step (q, a, c) = (p2, a1, drop_bit 1 c)"
    using s1 by (simp add: mul_step_alt)
  have "mul_step (p XOR q, a, b XOR c) = (p1 XOR p2, a1, drop_bit 1 b XOR drop_bit 1 c)"
    by (simp add: mul_step_xor_right s1 s2)
  then show ?case by (simp add: s1 s2 Suc.IH)
qed

lemma gf256_mul_fst: "gf256_mul a b = fst (mul_loop 8 (0, a AND 255, b AND 255)) AND 255"
  by (simp add: gf256_mul_def split: prod.split)

lemma gf256_mul_xor_left: "gf256_mul (x XOR y) b = gf256_mul x b XOR gf256_mul y b"
proof -
  have "fst (mul_loop 8 (0 XOR 0, (x AND 255) XOR (y AND 255), b AND 255)) =
        fst (mul_loop 8 (0, x AND 255, b AND 255)) XOR fst (mul_loop 8 (0, y AND 255, b AND 255))"
    by (rule mul_loop_xor_left)
  then show ?thesis
    by (simp add: gf256_mul_fst bit.conj_xor_distrib2)
qed

lemma gf256_mul_xor_right: "gf256_mul a (x XOR y) = gf256_mul a x XOR gf256_mul a y"
proof -
  have "fst (mul_loop 8 (0 XOR 0, a AND 255, (x AND 255) XOR (y AND 255))) =
        fst (mul_loop 8 (0, a AND 255, x AND 255)) XOR fst (mul_loop 8 (0, a AND 255, y AND 255))"
    by (rule mul_loop_xor_right)
  then show ?thesis
    by (simp add: gf256_mul_fst bit.conj_xor_distrib2)
qed

lemma gf256_mul_mask: "gf256_mul (a AND 255) b = gf256_mul a b" "gf256_mul a (b AND 255) = gf256_mul a b"
  by (simp_all add: gf256_mul_def and.assoc)

lemma gf256_mul_zero: "gf256_mul 0 b = 0" "gf256_mul a 0 = 0"
  using gf256_mul_xor_left [of 0 0 b] gf256_mul_xor_right [of a 0 0] by simp_all

lemma take_bit_Suc_xor: "take_bit (Suc n) (a::int) = take_bit n a XOR (if bit a n then 2 ^ n else 0)"
  by (rule bit_eqI) (auto simp: bit_simps less_Suc_eq)

lemma take_bit_xor_induct:
  assumes zero: "P 0"
    and pow: "\<And>i. i < n \<Longrightarrow> P (2 ^ i)"
    and xor: "\<And>x y. P x \<Longrightarrow> P y \<Longrightarrow> P (x XOR y)"
  shows "P (take_bit n (a::int))"
  using pow
proof (induction n)
  case 0
  show ?case by (simp add: zero)
next
  case (Suc n)
  have "P (take_bit n a)" by (rule Suc.IH) (simp add: Suc.prems)
  moreover have "P (if bit a n then 2 ^ n else 0)" by (simp add: zero Suc.prems)
  ultimately show ?case by (simp only: take_bit_Suc_xor xor)
qed

lemma byte_xor_induct:
  assumes "P 0" "\<And>i. i < 8 \<Longrightarrow> P (2 ^ i)" "\<And>x y. P x \<Longrightarrow> P y \<Longrightarrow> P (x XOR y)"
  shows "P ((a::int) AND 255)"
proof -
  have "a AND 255 = take_bit 8 a" by (simp add: take_bit_eq_mask mask_eq_exp_minus_1)
  then show ?thesis using take_bit_xor_induct [of P 8 a] assms by simp
qed


lemma mul_loop_8:
  "mul_loop 8 s = mul_step (mul_step (mul_step (mul_step (mul_step (mul_step (mul_step (mul_step s)))))))"
  by (simp add: eval_nat_numeral)

lemma gf256_mul_numeral:
  "gf256_mul (numeral m) (numeral n) =
     (case mul_loop 8 (0, numeral m AND 0xff, numeral n AND 0xff) of (p, _, _) \<Rightarrow> p AND 0xff)"
  "gf256_mul 1 (numeral n) =
     (case mul_loop 8 (0, 1 AND 0xff, numeral n AND 0xff) of (p, _, _) \<Rightarrow> p AND 0xff)"
  "gf256_mul (numeral m) 1 =
     (case mul_loop 8 (0, numeral m AND 0xff, 1 AND 0xff) of (p, _, _) \<Rightarrow> p AND 0xff)"
  "gf256_mul 1 1 = (case mul_loop 8 (0, 1 AND 0xff, 1 AND 0xff) of (p, _, _) \<Rightarrow> p AND 0xff)"
  by (simp_all only: gf256_mul_def)

lemmas gf256_eval = gf256_mul_numeral mul_loop_8 mul_step_alt

lemma basis_comm_check:
  "list_all (\<lambda>x. list_all (\<lambda>y. gf256_mul x y = gf256_mul y x) [1, 2, 4, 8, 16, 32, 64, 128])
     [1, 2, 4, 8, 16, 32, 64, 128]"
  by (simp add: gf256_eval)

lemma basis_assoc_check:
  "list_all (\<lambda>x. list_all (\<lambda>y. list_all (\<lambda>z.
      gf256_mul x (gf256_mul y z) = gf256_mul (gf256_mul x y) z)
    [1, 2, 4, 8, 16, 32, 64, 128]) [1, 2, 4, 8, 16, 32, 64, 128]) [1, 2, 4, 8, 16, 32, 64, 128]"
  by (simp add: gf256_eval)

lemma pow2_basis: "i < 8 \<Longrightarrow> (2::int) ^ i \<in> set [1, 2, 4, 8, 16, 32, 64, 128]"
proof -
  assume "i < 8"
  then have "i \<in> {0, 1, 2, 3, 4, 5, 6, 7}" by auto
  then show ?thesis by auto
qed

lemma basis_comm: "i < 8 \<Longrightarrow> j < 8 \<Longrightarrow> gf256_mul (2 ^ i) (2 ^ j) = gf256_mul (2 ^ j) (2 ^ i)"
  using basis_comm_check pow2_basis [of i] pow2_basis [of j] unfolding list_all_iff by blast

lemma basis_assoc: "i < 8 \<Longrightarrow> j < 8 \<Longrightarrow> k < 8 \<Longrightarrow>
   gf256_mul (2 ^ i) (gf256_mul (2 ^ j) (2 ^ k)) = gf256_mul (gf256_mul (2 ^ i) (2 ^ j)) (2 ^ k)"
  using basis_assoc_check pow2_basis [of i] pow2_basis [of j] pow2_basis [of k]
  unfolding list_all_iff by blast

lemma basis_one_check:
  "list_all (\<lambda>x. gf256_mul x 1 = x) [1, 2, 4, 8, 16, 32, 64, 128]"
  by (simp add: gf256_eval)

lemma basis_one: "i < 8 \<Longrightarrow> gf256_mul (2 ^ i) 1 = 2 ^ i"
  using basis_one_check pow2_basis [of i] unfolding list_all_iff by blast

lemma gf256_mul_commute: "gf256_mul a b = gf256_mul b a"
proof -
  have inner: "gf256_mul (2 ^ i) (y AND 255) = gf256_mul (y AND 255) (2 ^ i)" if "i < 8" for i y
    by (rule byte_xor_induct [where P = "\<lambda>y. gf256_mul (2 ^ i) y = gf256_mul y (2 ^ i)"])
       (simp_all add: gf256_mul_zero basis_comm that gf256_mul_xor_left gf256_mul_xor_right)
  have "gf256_mul (a AND 255) (b AND 255) = gf256_mul (b AND 255) (a AND 255)"
    by (rule byte_xor_induct [where P = "\<lambda>x. gf256_mul x (b AND 255) = gf256_mul (b AND 255) x"])
       (simp_all add: gf256_mul_zero inner gf256_mul_xor_left gf256_mul_xor_right)
  then show ?thesis by (simp add: gf256_mul_mask)
qed

lemma gf256_mul_assoc: "gf256_mul a (gf256_mul b c) = gf256_mul (gf256_mul a b) c"
proof -
  have l3: "gf256_mul (2 ^ i) (gf256_mul (2 ^ j) (z AND 255)) =
            gf256_mul (gf256_mul (2 ^ i) (2 ^ j)) (z AND 255)" if "i < 8" "j < 8" for i j z
    by (rule byte_xor_induct [where P = "\<lambda>z. gf256_mul (2 ^ i) (gf256_mul (2 ^ j) z) =
            gf256_mul (gf256_mul (2 ^ i) (2 ^ j)) z"])
       (simp_all add: gf256_mul_zero basis_assoc that gf256_mul_xor_left gf256_mul_xor_right)
  have l2: "gf256_mul (2 ^ i) (gf256_mul (y AND 255) (c AND 255)) =
            gf256_mul (gf256_mul (2 ^ i) (y AND 255)) (c AND 255)" if "i < 8" for i y
    by (rule byte_xor_induct [where P = "\<lambda>y. gf256_mul (2 ^ i) (gf256_mul y (c AND 255)) =
            gf256_mul (gf256_mul (2 ^ i) y) (c AND 255)"])
       (simp_all add: gf256_mul_zero l3 that gf256_mul_xor_left gf256_mul_xor_right)
  have "gf256_mul (a AND 255) (gf256_mul (b AND 255) (c AND 255)) =
        gf256_mul (gf256_mul (a AND 255) (b AND 255)) (c AND 255)"
    by (rule byte_xor_induct [where P = "\<lambda>x. gf256_mul x (gf256_mul (b AND 255) (c AND 255)) =
            gf256_mul (gf256_mul x (b AND 255)) (c AND 255)"])
       (simp_all add: gf256_mul_zero l2 gf256_mul_xor_left gf256_mul_xor_right)
  then show ?thesis by (simp add: gf256_mul_mask)
qed

lemma gf256_mul_one: "gf256_mul a 1 = a AND 255"
proof -
  have "gf256_mul (a AND 255) 1 = a AND 255"
    by (rule byte_xor_induct [where P = "\<lambda>x. gf256_mul x 1 = x"])
       (simp_all add: gf256_mul_zero basis_one gf256_mul_xor_left)
  then show ?thesis by (simp add: gf256_mul_mask)
qed

lemma gf256_mul_range: "0 \<le> gf256_mul a b" "gf256_mul a b < 256"
proof -
  have m: "gf256_mul a b = take_bit 8 (fst (mul_loop 8 (0, a AND 255, b AND 255)))"
    by (simp add: gf256_mul_fst take_bit_eq_mask mask_eq_exp_minus_1)
  show "0 \<le> gf256_mul a b" unfolding m by simp
  have "take_bit 8 (fst (mul_loop 8 (0, a AND 255, b AND 255))) < 2 ^ 8"
    by (rule take_bit_int_less_exp)
  then show "gf256_mul a b < 256" unfolding m by simp
qed

lemma byte_and_255: "0 \<le> a \<Longrightarrow> a < 256 \<Longrightarrow> (a::int) AND 255 = a"
proof -
  assume "0 \<le> a" "a < 256"
  then have "take_bit 8 a = a" by (simp add: take_bit_int_eq_self)
  then show ?thesis by (simp add: take_bit_eq_mask mask_eq_exp_minus_1)
qed

lemma inverse_loop_found:
  "\<exists>b\<in>set bs. gf256_mul a b = 1 \<Longrightarrow>
     gf256_mul a (inverse_loop a bs) = 1 \<and> inverse_loop a bs \<in> set bs"
  by (induction bs) auto

lemma inverse_loop_range:
  "inverse_loop a bs = 0 \<or> inverse_loop a bs \<in> set bs"
  by (induction bs) auto

lemma gf256_inverse_unique:
  assumes "gf256_mul a b = 1" "gf256_mul a c = 1" "0 \<le> b" "b < 256" "0 \<le> c" "c < 256"
  shows "b = c"
proof -
  have "b = gf256_mul b 1" using assms by (simp add: gf256_mul_one byte_and_255)
  also have "\<dots> = gf256_mul b (gf256_mul a c)" using assms by simp
  also have "\<dots> = gf256_mul (gf256_mul b a) c" by (rule gf256_mul_assoc)
  also have "\<dots> = gf256_mul (gf256_mul a b) c" by (simp only: gf256_mul_commute [of b a])
  also have "\<dots> = gf256_mul 1 c" using assms by simp
  also have "\<dots> = gf256_mul c 1" by (rule gf256_mul_commute)
  also have "\<dots> = c" using assms by (simp add: gf256_mul_one byte_and_255)
  finally show ?thesis .
qed


lemma inverse_table_check:
  "list_all2 (\<lambda>a b. gf256_mul a b = 1) [1..255]
    [1, 141, 246, 203, 82, 123, 209, 232, 79, 41, 192, 176, 225, 229, 199, 116, 180,
     170, 75, 153, 43, 96, 95, 88, 63, 253, 204, 255, 64, 238, 178, 58, 110, 90, 241,
     85, 77, 168, 201, 193, 10, 152, 21, 48, 68, 162, 194, 44, 69, 146, 108, 243, 57,
     102, 66, 242, 53, 32, 111, 119, 187, 89, 25, 29, 254, 55, 103, 45, 49, 245, 105,
     167, 100, 171, 19, 84, 37, 233, 9, 237, 92, 5, 202, 76, 36, 135, 191, 24, 62, 34,
     240, 81, 236, 97, 23, 22, 94, 175, 211, 73, 166, 54, 67, 244, 71, 145, 223, 51,
     147, 33, 59, 121, 183, 151, 133, 16, 181, 186, 60, 182, 112, 208, 6, 161, 250, 129,
     130, 131, 126, 127, 128, 150, 115, 190, 86, 155, 158, 149, 217, 247, 2, 185, 164,
     222, 106, 50, 109, 216, 138, 132, 114, 42, 20, 159, 136, 249, 220, 137, 154, 251,
     124, 46, 195, 143, 184, 101, 72, 38, 200, 18, 74, 206, 231, 210, 98, 12, 224, 31,
     239, 17, 117, 120, 113, 165, 142, 118, 61, 189, 188, 134, 87, 11, 40, 47, 163, 218,
     212, 228, 15, 169, 39, 83, 4, 27, 252, 172, 230, 122, 7, 174, 99, 197, 219, 226,
     234, 148, 139, 196, 213, 157, 248, 144, 107, 177, 13, 214, 235, 198, 14, 207, 173,
     8, 78, 215, 227, 93, 80, 30, 179, 91, 35, 56, 52, 104, 70, 3, 140, 221, 156, 125,
     160, 205, 26, 65, 28]"
  by (simp add: upto_rec1 [of 1 255] gf256_eval)

lemma gf256_inverse_exists:
  assumes "1 \<le> a" "a \<le> 255"
  shows "\<exists>b\<in>set [1..255]. gf256_mul a b = 1"
proof -
  have "a \<in> set [1..255]" using assms by simp
  then obtain i where i: "i < length [1..255]" "[1..255] ! i = a"
    unfolding in_set_conv_nth by blast
  from list_all2_nthD [OF inverse_table_check i(1)] i(2)
  obtain c where c: "gf256_mul a c = 1" by auto
  have m: "gf256_mul a (c AND 255) = 1" using c by (simp add: gf256_mul_mask)
  have r: "0 \<le> c AND 255" "c AND 255 \<le> 255"
    by (simp_all add: AND_upper2)
  have "c AND 255 \<noteq> 0" using m by (auto simp: gf256_mul_zero)
  with r have "1 \<le> c AND 255" by linarith
  with r have "c AND 255 \<in> set [1..255]" by (simp only: set_upto atLeastAtMost_iff)
  with m show ?thesis by blast
qed

lemma gf256_inverse_zero: "gf256_inverse 0 = 0"
  by (simp only: gf256_inverse_def simp_thms if_True)

lemma gf256_inverse_nonzero: "a \<noteq> 0 \<Longrightarrow> gf256_inverse a = inverse_loop a [1..255]"
  by (simp only: gf256_inverse_def simp_thms if_False)

lemma gf256_inverse_range: "0 \<le> gf256_inverse a \<and> gf256_inverse a \<le> 255"
proof (cases "a = 0")
  case True
  then show ?thesis by (simp only: gf256_inverse_zero) simp
next
  case False
  have "inverse_loop a [1..255] = 0 \<or> inverse_loop a [1..255] \<in> set [1..255]"
    by (rule inverse_loop_range)
  then have "inverse_loop a [1..255] = 0 \<or> inverse_loop a [1..255] \<in> {1..255}"
    by (simp only: set_upto)
  then have "0 \<le> inverse_loop a [1..255] \<and> inverse_loop a [1..255] \<le> 255"
    by (elim disjE) (simp_all only: atLeastAtMost_iff, simp_all)
  then show ?thesis by (simp only: gf256_inverse_nonzero [OF False])
qed

lemma gf256_inverse_spec:
  assumes "1 \<le> a" "a \<le> 255"
  shows "gf256_mul a (gf256_inverse a) = 1 \<and>
         1 \<le> gf256_inverse a \<and> gf256_inverse a \<le> 255 \<and>
         (\<forall>b. 0 \<le> b \<and> b \<le> 255 \<and> gf256_mul a b = 1 \<longrightarrow> b = gf256_inverse a)"
proof -
  have "a \<noteq> 0" using assms by simp
  then have inv: "gf256_inverse a = inverse_loop a [1..255]" by (rule gf256_inverse_nonzero)
  have "gf256_mul a (inverse_loop a [1..255]) = 1 \<and> inverse_loop a [1..255] \<in> set [1..255]"
    by (rule inverse_loop_found) (rule gf256_inverse_exists [OF assms])
  then have found: "gf256_mul a (gf256_inverse a) = 1 \<and> gf256_inverse a \<in> {1..255}"
    by (simp only: inv set_upto)
  then have one: "gf256_mul a (gf256_inverse a) = 1" by (rule conjunct1)
  from found have rng: "1 \<le> gf256_inverse a" "gf256_inverse a \<le> 255"
    by (simp_all only: atLeastAtMost_iff)
  have "b = gf256_inverse a" if b: "0 \<le> b \<and> b \<le> 255 \<and> gf256_mul a b = 1" for b
  proof (rule gf256_inverse_unique [of a])
    show "gf256_mul a b = 1" using b by blast
    show "gf256_mul a (gf256_inverse a) = 1" by (rule one)
    show "0 \<le> b" "b < 256" using b by auto
    show "0 \<le> gf256_inverse a" "gf256_inverse a < 256" using rng by auto
  qed
  with one rng show ?thesis by blast
qed

text \<open>
  C8. For all integers (in particular all bytes 0..255) \<open>a\<close>, \<open>b\<close>, \<open>c\<close>: addition and
  multiplication are commutative, multiplication is associative, and multiplication
  distributes over addition.
\<close>

theorem gf256_field_algebra:
  "gf256_add a b = gf256_add b a \<and>
   gf256_mul a b = gf256_mul b a \<and>
   gf256_mul a (gf256_mul b c) = gf256_mul (gf256_mul a b) c \<and>
   gf256_mul a (gf256_add b c) = gf256_add (gf256_mul a b) (gf256_mul a c)"
proof -
  have "gf256_add a b = gf256_add b a" by (simp add: gf256_add_def xor.commute)
  moreover have "gf256_mul a b = gf256_mul b a" by (rule gf256_mul_commute)
  moreover have "gf256_mul a (gf256_mul b c) = gf256_mul (gf256_mul a b) c"
    by (rule gf256_mul_assoc)
  moreover have "gf256_mul a (gf256_add b c) = gf256_add (gf256_mul a b) (gf256_mul a c)"
    by (simp add: gf256_add_def gf256_mul_xor_right)
  ultimately show ?thesis by blast
qed

text \<open>
  C3. For every nonzero field element \<open>a\<close> (1 \<le> a \<le> 255), \<open>gf256_inverse a\<close> is a field
  element \<open>b\<close> with \<open>gf256_mul a b = 1\<close>, and it is the only field element with that property.
\<close>

theorem gf256_inverse_correct:
  assumes "1 \<le> a" "a \<le> 255"
  shows "gf256_mul a (gf256_inverse a) = 1 \<and>
         1 \<le> gf256_inverse a \<and> gf256_inverse a \<le> 255 \<and>
         (\<forall>b. 0 \<le> b \<and> b \<le> 255 \<and> gf256_mul a b = 1 \<longrightarrow> b = gf256_inverse a)"
  using assms by (rule gf256_inverse_spec)

theorem gf256_inverse_correct_witness:
  "(1::int) \<le> 3 \<and> (3::int) \<le> 255 \<and> gf256_mul 3 246 = 1 \<and> gf256_inverse 3 = 246 \<and>
   gf256_mul 3 (gf256_inverse 3) = 1"
proof -
  have m: "gf256_mul 3 246 = 1" by (simp add: gf256_eval)
  have u: "gf256_mul 3 (gf256_inverse 3) = 1 \<and> 1 \<le> gf256_inverse 3 \<and> gf256_inverse 3 \<le> 255 \<and>
        (\<forall>b. 0 \<le> b \<and> b \<le> 255 \<and> gf256_mul 3 b = 1 \<longrightarrow> b = gf256_inverse 3)"
    using gf256_inverse_correct [of 3] by simp
  then have "246 = gf256_inverse 3" using m by (elim conjE allE [of _ 246]) simp
  with u m show ?thesis by simp
qed

section \<open>Reconstruction\<close>

lemma byte_xor_range:
  assumes "0 \<le> a" "a < 256" "0 \<le> b" "b < 256"
  shows "0 \<le> (a::int) XOR b \<and> a XOR b < 256"
proof -
  have "take_bit 8 a = a" "take_bit 8 b = b" using assms by (simp_all add: take_bit_int_eq_self)
  then have "a XOR b = take_bit 8 (a XOR b)" by (simp add: take_bit_xor)
  moreover have "0 \<le> take_bit 8 (a XOR b)" by simp
  moreover have "take_bit 8 (a XOR b) < 2 ^ 8" by (rule take_bit_int_less_exp)
  ultimately show ?thesis by simp
qed

lemma uint_byte_range: "0 \<le> uint (x::byte) \<and> uint x < 256"
  using uint_bounded [of x] by simp

lemma to_byte_recon:
  "to_byte (gf256_add (uint (x::byte)) (gf256_mul u v)) =
     Inr (word_of_int (gf256_add (uint x) (gf256_mul u v)))"
  using byte_xor_range [of "uint x" "gf256_mul u v"] uint_byte_range [of x] gf256_mul_range [of u v]
  by (simp add: to_byte_def gf256_add_def)

lemma reconstruct_loop_ok:
  "\<forall>i\<in>set idxs. i < length s1 \<and> i < length s2 \<Longrightarrow>
   reconstruct_loop inv_3 s1 s2 idxs acc =
     Inr (acc @ map (\<lambda>i. secret_byte inv_3 (s1 ! i) (s2 ! i)) idxs)"
proof (induction idxs arbitrary: acc)
  case Nil
  show ?case by simp
next
  case (Cons i idxs)
  then show ?case
    by (simp add: Let_def to_byte_recon secret_byte_def)
qed

lemma reconstruct_loop_append:
  "reconstruct_loop inv_3 s1 s2 (xs @ ys) acc =
     (case reconstruct_loop inv_3 s1 s2 xs acc of
        Inl e \<Rightarrow> Inl e
      | Inr acc' \<Rightarrow> reconstruct_loop inv_3 s1 s2 ys acc')"
  by (induction xs arbitrary: acc) (simp_all add: Let_def split: sum.splits)

lemma reconstruct_short:
  assumes "length s2 < length s1"
  shows "reconstruct s1 s2 = Inl IndexError"
proof -
  let ?m = "length s2"
  have split: "[0..<length s1] = [0..<?m] @ ?m # [Suc ?m..<length s1]"
    using assms by (metis le0 less_imp_le_nat upt_add_eq_append upt_conv_Cons le_add_diff_inverse)
  have pre: "reconstruct_loop (gf256_inverse 3) s1 s2 [0..<?m] [] =
      Inr ([] @ map (\<lambda>i. secret_byte (gf256_inverse 3) (s1 ! i) (s2 ! i)) [0..<?m])"
    by (rule reconstruct_loop_ok) (use assms in auto)
  show ?thesis
    unfolding reconstruct_def Let_def split reconstruct_loop_append pre
    using assms by simp
qed

lemma reconstruct_long:
  assumes "length s1 \<le> length s2"
  shows "reconstruct s1 s2 = Inr (map (\<lambda>i. secret_byte (gf256_inverse 3) (s1 ! i) (s2 ! i)) [0..<length s1])"
proof -
  have "reconstruct_loop (gf256_inverse 3) s1 s2 [0..<length s1] [] =
      Inr ([] @ map (\<lambda>i. secret_byte (gf256_inverse 3) (s1 ! i) (s2 ! i)) [0..<length s1])"
    by (rule reconstruct_loop_ok) (use assms in auto)
  then show ?thesis by (simp add: reconstruct_def)
qed

lemma xor_cancel3: "((s::int) XOR b) XOR (s XOR m) = b XOR m"
  by (simp add: ac_simps flip: xor.assoc)

lemma recon_algebra:
  assumes b: "0 \<le> b" "b < 256"
    and y1: "y1 = gf256_add s b"
    and y2: "y2 = gf256_add s (gf256_mul b 2)"
    and inv: "gf256_mul 3 inv_3 = 1"
  shows "gf256_add y1 (gf256_mul (gf256_add y1 y2) inv_3) = s"
proof -
  have b1: "gf256_mul b 1 = b" using b by (simp add: gf256_mul_one byte_and_255)
  have "gf256_add y1 y2 = b XOR gf256_mul b 2"
    by (simp add: y1 y2 gf256_add_def xor_cancel3)
  also have "\<dots> = gf256_mul b 1 XOR gf256_mul b 2" by (simp only: b1)
  also have "\<dots> = gf256_mul b (1 XOR 2)" by (simp only: gf256_mul_xor_right)
  also have "\<dots> = gf256_mul b 3" by simp
  finally have d: "gf256_add y1 y2 = gf256_mul b 3" .
  have "gf256_mul (gf256_mul b 3) inv_3 = gf256_mul b (gf256_mul 3 inv_3)"
    by (rule gf256_mul_assoc [symmetric])
  also have "\<dots> = b" by (simp only: inv b1)
  finally have "gf256_mul (gf256_add y1 y2) inv_3 = b" by (simp only: d)
  then show ?thesis by (simp add: y1 gf256_add_def xor.assoc)
qed

lemma gf256_inverse_3: "gf256_inverse 3 = 246"
proof (rule gf256_inverse_unique [of 3])
  have s: "gf256_mul 3 (gf256_inverse 3) = 1 \<and> 1 \<le> gf256_inverse 3 \<and> gf256_inverse 3 \<le> 255 \<and>
        (\<forall>b. 0 \<le> b \<and> b \<le> 255 \<and> gf256_mul 3 b = 1 \<longrightarrow> b = gf256_inverse 3)"
    by (rule gf256_inverse_spec) simp_all
  show "gf256_mul 3 (gf256_inverse 3) = 1" using s by (rule conjunct1)
  show "gf256_mul 3 246 = 1" by (simp add: gf256_eval)
  show "0 \<le> gf256_inverse 3" "gf256_inverse 3 < 256" using s by linarith+
  show "(0::int) \<le> 246" "(246::int) < 256" by simp_all
qed

text \<open>
  C1. For every 16-byte secret \<open>S\<close> and 16-byte blinding vector \<open>B\<close>: if \<open>share1\<close> holds
  \<open>add(S[i], B[i])\<close> and \<open>share2\<close> holds \<open>add(S[i], mul(B[i], 2))\<close> at every byte position
  \<open>i\<close>, then the reconstruction loop of \<open>main\<close> returns exactly \<open>S\<close>.
\<close>

theorem reconstruct_recovers_secret:
  assumes len: "length (S::byte list) = 16" "length (B::byte list) = 16" "length share1 = 16" "length share2 = 16"
    and s1: "\<forall>i<16. uint (share1 ! i) = gf256_add (uint (S ! i)) (uint (B ! i))"
    and s2: "\<forall>i<16. uint (share2 ! i) = gf256_add (uint (S ! i)) (gf256_mul (uint (B ! i)) 2)"
  shows "reconstruct share1 share2 = Inr S"
proof -
  have inv: "gf256_mul 3 (gf256_inverse 3) = 1" using gf256_inverse_spec [of 3] by simp
  have byte: "secret_byte (gf256_inverse 3) (share1 ! i) (share2 ! i) = S ! i" if "i < 16" for i
  proof -
    have "gf256_add (uint (share1 ! i))
            (gf256_mul (gf256_add (uint (share1 ! i)) (uint (share2 ! i))) (gf256_inverse 3)) =
          uint (S ! i)"
      using uint_byte_range [of "B ! i"] s1 s2 that inv
      by (intro recon_algebra [where b = "uint (B ! i)"]) simp_all
    then show ?thesis by (simp add: secret_byte_def)
  qed
  have "reconstruct share1 share2 =
      Inr (map (\<lambda>i. secret_byte (gf256_inverse 3) (share1 ! i) (share2 ! i)) [0..<length share1])"
    by (rule reconstruct_long) (simp add: len)
  moreover have "map (\<lambda>i. secret_byte (gf256_inverse 3) (share1 ! i) (share2 ! i)) [0..<16] = S"
    by (rule nth_equalityI) (simp_all add: len byte)
  ultimately show ?thesis by (simp add: len)
qed

theorem reconstruct_recovers_secret_witness:
  "reconstruct (replicate 16 7) (replicate 16 8) = Inr (replicate 16 2)"
proof -
  have a: "\<forall>i<16. uint ((replicate 16 7 :: byte list) ! i) =
      gf256_add (uint ((replicate 16 2 :: byte list) ! i)) (uint ((replicate 16 5 :: byte list) ! i))"
    by (simp add: gf256_add_def)
  have b: "\<forall>i<16. uint ((replicate 16 8 :: byte list) ! i) =
      gf256_add (uint ((replicate 16 2 :: byte list) ! i))
        (gf256_mul (uint ((replicate 16 5 :: byte list) ! i)) 2)"
    by (simp add: gf256_add_def gf256_eval)
  show ?thesis
    using reconstruct_recovers_secret [of "replicate 16 2" "replicate 16 5" "replicate 16 7" "replicate 16 8"] a b
    by simp
qed

text \<open>
  C5, as the claim states it, fails: with a second share longer than the first, the loop
  of \<open>main\<close> raises nothing and returns as many bytes as the first share has.
\<close>

theorem reconstruct_length_mismatch_counterexample:
  "reconstruct [1, 2] [4, 5, 6] = Inr [2, 246]"
proof -
  have "reconstruct [1, 2] [4, 5, 6] =
      Inr (map (\<lambda>i. secret_byte (gf256_inverse 3) ([1, 2] ! i) ([4, 5, 6] ! i)) [0..<length [1, 2::byte]])"
    by (rule reconstruct_long) simp
  then show ?thesis
    by (simp add: upt_rec secret_byte_def gf256_inverse_3 gf256_add_def gf256_eval)
qed

text \<open>
  C5, amended. The loop visits the byte positions of the first share. When the second
  share is shorter it fails, with \<open>IndexError\<close>; when the second share is at least as long
  it succeeds with one byte per position of the first share, and bytes of the second share
  beyond that length have no influence. Share indices are no input of the computation.
\<close>

theorem reconstruct_share_lengths:
  "(length share2 < length share1 \<longrightarrow> reconstruct share1 share2 = Inl IndexError) \<and>
   (length share1 \<le> length share2 \<longrightarrow>
      (\<exists>secret. reconstruct share1 share2 = Inr secret \<and> length secret = length share1 \<and>
         reconstruct share1 (take (length share1) share2) = Inr secret))"
proof (intro conjI impI)
  assume "length share2 < length share1"
  then show "reconstruct share1 share2 = Inl IndexError" by (rule reconstruct_short)
next
  assume le: "length share1 \<le> length share2"
  let ?r = "map (\<lambda>i. secret_byte (gf256_inverse 3) (share1 ! i) (share2 ! i)) [0..<length share1]"
  have a: "reconstruct share1 share2 = Inr ?r" using le by (rule reconstruct_long)
  have "reconstruct share1 (take (length share1) share2) =
      Inr (map (\<lambda>i. secret_byte (gf256_inverse 3) (share1 ! i) (take (length share1) share2 ! i))
             [0..<length share1])"
    by (rule reconstruct_long) (simp add: le)
  then have b: "reconstruct share1 (take (length share1) share2) = Inr ?r" by simp
  from a b show "\<exists>secret. reconstruct share1 share2 = Inr secret \<and> length secret = length share1 \<and>
         reconstruct share1 (take (length share1) share2) = Inr secret"
    by simp
qed

theorem reconstruct_share_lengths_witness:
  "reconstruct [1, 2, 3] [4, 5] = Inl IndexError \<and>
   reconstruct [1, 2] (take 2 [4, 5, 6]) = reconstruct [1, 2] [4, 5, 6]"
  using reconstruct_share_lengths [where ?share1.0 = "[1, 2, 3]" and ?share2.0 = "[4, 5]"]
    reconstruct_share_lengths [where ?share1.0 = "[1, 2]" and ?share2.0 = "[4, 5, 6]"]
  by auto

text \<open>
  C10. \<open>gf256_inverse\<close> is a total function on the integers with no failing branch: on 0
  it returns the sentinel 0, and every result is a byte. Consequently the reconstruction
  loop cannot fail because of an inverse: its only failure is the \<open>IndexError\<close> of reading
  past the end of a share.
\<close>

theorem gf256_inverse_total:
  "gf256_inverse 0 = 0 \<and> 0 \<le> gf256_inverse a \<and> gf256_inverse a \<le> 255 \<and>
   (reconstruct share1 share2 = Inl err \<longrightarrow> err = IndexError)"
proof -
  have "err = IndexError" if f: "reconstruct share1 share2 = Inl err"
  proof (cases "length share2 < length share1")
    case True
    then have "reconstruct share1 share2 = Inl IndexError" by (rule reconstruct_short)
    with f show ?thesis by simp
  next
    case False
    then have "length share1 \<le> length share2" by simp
    from reconstruct_long [OF this] f show ?thesis by simp
  qed
  with gf256_inverse_zero gf256_inverse_range [of a] show ?thesis by blast
qed

theorem gf256_inverse_total_witness:
  "reconstruct [1, 2, 3] [4, 5] = Inl IndexError \<and> gf256_inverse 0 = 0"
proof -
  have r: "reconstruct [1, 2, 3] [4, 5] = Inl IndexError" by (rule reconstruct_short) simp
  with gf256_inverse_total [of 0 "[1, 2, 3]" "[4, 5]" IndexError] show ?thesis by blast
qed

section \<open>Seed derivation\<close>

lemma length_bytes_hex: "length (bytes_hex bs) = 2 * length bs"
  by (induction bs) (simp_all add: bytes_hex_def)

lemma hex_digit_lower: "n < 16 \<Longrightarrow> hex_digit n \<in> set ''0123456789abcdef''"
  unfolding hex_digit_def by (rule nth_mem) simp

lemma byte_nibbles: "unat (b::byte) div 16 < 16" "unat b mod 16 < 16"
proof -
  have "unat b < 256" using unsigned_less [of b, where ?'a = nat] by simp
  then show "unat b div 16 < 16" by simp
  show "unat b mod 16 < 16" by simp
qed

lemma bytes_hex_lower: "list_all (\<lambda>c. c \<in> set ''0123456789abcdef'') (bytes_hex bs)"
proof -
  have "c \<in> set ''0123456789abcdef''" if "c \<in> set (bytes_hex bs)" for c
  proof -
    from that have "\<exists>b::byte. c = hex_digit (unat b div 16) \<or> c = hex_digit (unat b mod 16)"
      by (auto simp: bytes_hex_def)
    then show ?thesis using hex_digit_lower byte_nibbles by blast
  qed
  then show ?thesis unfolding list_all_iff by blast
qed

text \<open>
  C7. For every mnemonic \<open>m\<close> and passphrase \<open>p\<close>, \<open>mnemonic_to_seed\<close> is the lowercase
  hexadecimal rendering of PBKDF2-HMAC with hash \<open>sha512\<close>, applied to the UTF-8 bytes of
  \<open>m\<close> with salt the UTF-8 bytes of \<open>"mnemonic"\<close> followed by \<open>p\<close> and 2048 iterations; it
  has 128 characters when the primitive returns 64 bytes, and the passphrase defaults to
  the empty string.
\<close>

theorem mnemonic_to_seed_spec:
  "mnemonic_to_seed pbkdf2_hmac m p =
     bytes_hex (pbkdf2_hmac ''sha512'' (utf8_encode m) (utf8_encode (''mnemonic'' @ p)) 2048) \<and>
   mnemonic_to_seed_default pbkdf2_hmac m = mnemonic_to_seed pbkdf2_hmac m [] \<and>
   list_all (\<lambda>c. c \<in> set ''0123456789abcdef'') (mnemonic_to_seed pbkdf2_hmac m p) \<and>
   (length (pbkdf2_hmac ''sha512'' (utf8_encode m) (utf8_encode (''mnemonic'' @ p)) 2048) = 64
      \<longrightarrow> length (mnemonic_to_seed pbkdf2_hmac m p) = 128)"
proof (intro conjI impI)
  show "mnemonic_to_seed pbkdf2_hmac m p =
     bytes_hex (pbkdf2_hmac ''sha512'' (utf8_encode m) (utf8_encode (''mnemonic'' @ p)) 2048)"
    by (simp only: mnemonic_to_seed_def Let_def)
  show "mnemonic_to_seed_default pbkdf2_hmac m = mnemonic_to_seed pbkdf2_hmac m []"
    by (simp only: mnemonic_to_seed_default_def)
  show "list_all (\<lambda>c. c \<in> set ''0123456789abcdef'') (mnemonic_to_seed pbkdf2_hmac m p)"
    unfolding mnemonic_to_seed_def Let_def by (rule bytes_hex_lower)
  assume "length (pbkdf2_hmac ''sha512'' (utf8_encode m) (utf8_encode (''mnemonic'' @ p)) 2048) = 64"
  then show "length (mnemonic_to_seed pbkdf2_hmac m p) = 128"
    by (simp add: mnemonic_to_seed_def length_bytes_hex)
qed

theorem mnemonic_to_seed_spec_witness:
  "length (mnemonic_to_seed (\<lambda>name password salt iterations. replicate 64 171) ''abandon ability'' ''pw'') = 128 \<and>
   utf8_encode (''mnemonic'' @ ''pw'') = [109, 110, 101, 109, 111, 110, 105, 99, 112, 119] \<and>
   utf8_encode [CHR 0xE9] = [195, 169] \<and>
   mnemonic_to_seed (\<lambda>name password salt iterations. take 2 salt) ''abandon ability'' ''pw'' = ''6d6e''"
proof -
  have "length (mnemonic_to_seed (\<lambda>name password salt iterations. replicate 64 171) ''abandon ability'' ''pw'') = 128"
  proof -
    have "length ((\<lambda>name password salt iterations. replicate 64 (171::byte)) ''sha512''
            (utf8_encode ''abandon ability'') (utf8_encode (''mnemonic'' @ ''pw'')) (2048::nat)) = 64
          \<longrightarrow> length (mnemonic_to_seed (\<lambda>name password salt iterations. replicate 64 171)
            ''abandon ability'' ''pw'') = 128"
      using mnemonic_to_seed_spec [of "\<lambda>name password salt iterations. replicate 64 171"
          "''abandon ability''" "''pw''"]
      by (elim conjE)
    then show ?thesis by simp
  qed
  moreover have "utf8_encode (''mnemonic'' @ ''pw'') = [109, 110, 101, 109, 111, 110, 105, 99, 112, 119]"
    by (simp add: utf8_encode_def utf8_char_def)
  moreover have "utf8_encode [CHR 0xE9] = [195, 169]"
    by (simp add: utf8_encode_def utf8_char_def)
  moreover have "mnemonic_to_seed (\<lambda>name password salt iterations. take 2 salt) ''abandon ability'' ''pw'' = ''6d6e''"
    by (simp add: mnemonic_to_seed_def utf8_encode_def utf8_char_def bytes_hex_def hex_digit_def)
  ultimately show ?thesis by blast
qed

section \<open>The mnemonic codec\<close>

lemma length_to_bits: "length (to_bits k n) = k"
  by (induction k arbitrary: n) simp_all

lemma is_binary_append: "is_binary (xs @ ys) = (is_binary xs \<and> is_binary ys)"
  by (simp add: is_binary_def)

lemma is_binary_to_bits: "is_binary (to_bits k n)"
  by (induction k arbitrary: n) (simp_all add: is_binary_append, simp_all add: is_binary_def bit_char_def)

lemma to_bits_zero: "to_bits k 0 = replicate k CHR ''0''"
  by (induction k) (simp_all add: bit_char_def replicate_append_same)

lemma bits_value_snoc:
  "bits_value (s @ [c]) = 2 * bits_value s + (if c = CHR ''1'' then 1 else 0)"
  by (simp add: bits_value_def)

lemma bits_value_nonneg: "0 \<le> bits_value s"
  by (induction s rule: rev_induct) (simp_all add: bits_value_snoc, simp add: bits_value_def)

lemma bits_value_less: "bits_value s < 2 ^ length s"
proof (induction s rule: rev_induct)
  case Nil
  show ?case by (simp add: bits_value_def)
next
  case (snoc c s)
  then show ?case by (simp add: bits_value_snoc)
qed

lemma bits_value_to_bits: "n < 2 ^ k \<Longrightarrow> bits_value (to_bits k n) = int n"
proof (induction k arbitrary: n)
  case 0
  then show ?case by (simp add: bits_value_def)
next
  case (Suc k)
  then have "n div 2 < 2 ^ k" by simp
  then have "bits_value (to_bits k (n div 2)) = int (n div 2)" by (rule Suc.IH)
  then show ?case
    by (simp add: bits_value_snoc bit_char_def) presburger
qed

lemma to_bits_bits_value:
  "is_binary s \<Longrightarrow> to_bits (length s) (nat (bits_value s)) = s"
proof (induction s rule: rev_induct)
  case Nil
  show ?case by simp
next
  case (snoc c s)
  then have bin: "is_binary s" and c: "c = CHR ''0'' \<or> c = CHR ''1''"
    by (simp_all add: is_binary_append, simp add: is_binary_def)
  have ih: "to_bits (length s) (nat (bits_value s)) = s" using snoc.IH bin by simp
  let ?v = "nat (bits_value s)"
  let ?b = "if c = CHR ''1'' then 1 else (0::nat)"
  have v: "nat (bits_value (s @ [c])) = 2 * ?v + ?b"
    using bits_value_nonneg [of s] by (simp add: bits_value_snoc nat_add_distrib nat_mult_distrib)
  have "(2 * ?v + ?b) div 2 = ?v" by simp
  moreover have "bit_char (2 * ?v + ?b) = c" using c by (auto simp: bit_char_def)
  ultimately show ?case using ih by (simp add: v del: nat_add_distrib)
qed

lemma bin_digits_nonempty: "bin_digits n \<noteq> []"
  by (subst bin_digits.simps) simp

lemma is_binary_bin_digits: "is_binary (bin_digits n)"
proof (induction n rule: bin_digits.induct)
  case (1 n)
  show ?case
  proof (cases "n < 2")
    case True
    then show ?thesis by (subst bin_digits.simps) (simp add: is_binary_def)
  next
    case False
    with 1 have "is_binary (bin_digits (n div 2))" by simp
    with False show ?thesis
      by (subst bin_digits.simps) (simp add: is_binary_append, simp add: is_binary_def)
  qed
qed

lemma zfill_binary:
  assumes "is_binary s" "s \<noteq> []"
  shows "zfill k s = replicate (k - length s) CHR ''0'' @ s"
proof -
  obtain c rest where s: "s = c # rest" using assms(2) by (cases s) auto
  with assms(1) have "c = CHR ''0'' \<or> c = CHR ''1''" by (simp add: is_binary_def)
  then have "c \<noteq> CHR ''+'' \<and> c \<noteq> CHR ''-''" by auto
  then show ?thesis by (auto simp: zfill_def s)
qed

lemma zfill_bin_digits:
  "n < 2 ^ k \<Longrightarrow> 0 < k \<Longrightarrow> zfill k (bin_digits n) = to_bits k n"
proof (induction n arbitrary: k rule: bin_digits.induct)
  case (1 n)
  obtain j where k: "k = Suc j" using "1.prems"(2) by (cases k) auto
  show ?case
  proof (cases "n < 2")
    case True
    then have d: "bin_digits n = [bit_char n]"
      by (subst bin_digits.simps) (auto simp: bit_char_def)
    have "n div 2 = 0" using True by simp
    then show ?thesis
      by (simp add: d zfill_binary is_binary_def bit_char_def k to_bits_zero)
  next
    case False
    then have d: "bin_digits n = bin_digits (n div 2) @ [bit_char n]"
      by (subst bin_digits.simps) (simp add: bit_char_def)
    have j: "0 < j" using False "1.prems"(1) k by (cases j) auto
    have "n div 2 < 2 ^ j" using "1.prems"(1) k by simp
    then have ih: "zfill j (bin_digits (n div 2)) = to_bits j (n div 2)"
      using "1.IH" False j by simp
    have b: "is_binary (bin_digits n)" "bin_digits n \<noteq> []"
      by (rule is_binary_bin_digits, rule bin_digits_nonempty)
    have b2: "is_binary (bin_digits (n div 2))" "bin_digits (n div 2) \<noteq> []"
      by (rule is_binary_bin_digits, rule bin_digits_nonempty)
    have "zfill k (bin_digits n) =
        replicate (j - length (bin_digits (n div 2))) CHR ''0'' @ bin_digits (n div 2) @ [bit_char n]"
      using zfill_binary [OF b] by (simp add: d k)
    also have "\<dots> = zfill j (bin_digits (n div 2)) @ [bit_char n]"
      using zfill_binary [OF b2] by simp
    finally show ?thesis by (simp add: ih k)
  qed
qed

lemma length_bin_digits_large: "2 ^ k \<le> n \<Longrightarrow> k < length (bin_digits n)"
proof (induction n arbitrary: k rule: bin_digits.induct)
  case (1 n)
  show ?case
  proof (cases k)
    case 0
    then show ?thesis using bin_digits_nonempty [of n] by simp
  next
    case (Suc j)
    have p: "1 \<le> (2::nat) ^ j" by simp
    have le: "2 * 2 ^ j \<le> n" using "1.prems" Suc by simp
    from p le have n2: "\<not> n < 2" by linarith
    from le have "2 ^ j \<le> n div 2" by linarith
    with n2 have "j < length (bin_digits (n div 2))" by (rule "1.IH")
    with n2 Suc show ?thesis by (subst bin_digits.simps) simp
  qed
qed

lemma drop_py_bin: "drop 2 (py_bin (int n)) = bin_digits n"
  by (simp add: py_bin_def)

lemma slice_concat:
  "\<forall>g\<in>set gs. length g = m \<Longrightarrow> k < length gs \<Longrightarrow>
     take m (drop (m * k) (concat gs)) = gs ! k"
proof (induction gs arbitrary: k)
  case Nil
  then show ?case by simp
next
  case (Cons g gs)
  show ?case
  proof (cases k)
    case 0
    then show ?thesis using Cons.prems by simp
  next
    case (Suc j)
    then have "take m (drop (m * j) (concat gs)) = gs ! j" using Cons by simp
    moreover have "length g = m" using Cons.prems by simp
    ultimately show ?thesis by (simp add: Suc)
  qed
qed

lemma upt_0_Suc_map: "[0..<Suc n] = 0 # map Suc [0..<n]"
  by (simp add: upt_conv_Cons map_Suc_upt del: upt_Suc)

lemma concat_slices:
  "length s = m * n \<Longrightarrow> concat (map (\<lambda>k. take m (drop (m * k) s)) [0..<n]) = s"
proof (induction n arbitrary: s)
  case 0
  then show ?case by simp
next
  case (Suc n)
  have "length (drop m s) = m * n" using Suc.prems by simp
  then have ih: "concat (map (\<lambda>k. take m (drop (m * k) (drop m s))) [0..<n]) = drop m s"
    by (rule Suc.IH)
  have "concat (map (\<lambda>k. take m (drop (m * k) s)) [0..<Suc n]) =
        take m s @ concat (map (\<lambda>k. take m (drop (m * Suc k) s)) [0..<n])"
    by (simp only: upt_0_Suc_map) (simp add: comp_def)
  also have "\<dots> = take m s @ concat (map (\<lambda>k. take m (drop (m * k) (drop m s))) [0..<n])"
    by (simp add: add.commute)
  finally have "concat (map (\<lambda>k. take m (drop (m * k) s)) [0..<Suc n]) =
      take m s @ drop m s"
    by (simp only: ih)
  then show ?case by (simp only: append_take_drop_id)
qed

lemma collect_all_ok:
  "\<forall>x\<in>set xs. f x = Inr (g x) \<Longrightarrow> collect (map f xs) = Inr (map g xs)"
  by (induction xs) simp_all

lemma collect_Inl:
  "collect rs = Inl e \<Longrightarrow> Inl e \<in> set rs"
  by (induction rs) (auto split: sum.splits)

lemma collect_Inr_length:
  "collect rs = Inr vs \<Longrightarrow> length vs = length rs"
  by (induction rs arbitrary: vs) (auto split: sum.splits)

lemma py_index_absent: "w \<notin> set ws \<Longrightarrow> py_index ws w = Inl (NotInList w)"
  by (induction ws) auto

lemma py_index_Inl: "py_index ws w = Inl e \<Longrightarrow> w \<notin> set ws \<and> e = NotInList w"
  by (induction ws) (auto split: if_splits sum.splits)

lemma py_index_present:
  "w \<in> set ws \<Longrightarrow> \<exists>i. py_index ws w = Inr i \<and> i < length ws \<and> ws ! i = w"
proof (induction ws)
  case Nil
  then show ?case by simp
next
  case (Cons x ws)
  show ?case
  proof (cases "x = w")
    case True
    then show ?thesis by simp
  next
    case False
    with Cons obtain i where "py_index ws w = Inr i" "i < length ws" "ws ! i = w" by auto
    with False show ?thesis by simp
  qed
qed

lemma py_index_nth:
  "distinct ws \<Longrightarrow> i < length ws \<Longrightarrow> py_index ws (ws ! i) = Inr i"
proof (induction ws arbitrary: i)
  case Nil
  then show ?case by simp
next
  case (Cons x ws)
  show ?case
  proof (cases i)
    case 0
    then show ?thesis by simp
  next
    case (Suc j)
    with Cons.prems have j: "j < length ws" and "x \<noteq> ws ! j" by auto
    with Cons show ?thesis by (simp add: Suc)
  qed
qed

lemma split_ws_word:
  "list_all (\<lambda>c. \<not> is_space c) w \<Longrightarrow> split_ws cur (w @ rest) = split_ws (cur @ w) rest"
  by (induction w arbitrary: cur) simp_all

lemma is_space_blank: "is_space CHR '' ''"
  by (simp add: is_space_def)

lemma split_ws_join:
  "list_all plain_word ws \<Longrightarrow> ws \<noteq> [] \<Longrightarrow>
     split_ws [] (join_space ws) = ws"
proof (induction ws rule: join_space.induct)
  case 1
  then show ?case by simp
next
  case (2 w)
  then have "list_all (\<lambda>c. \<not> is_space c) w" "w \<noteq> []" by (simp_all add: plain_word_def)
  then show ?case using split_ws_word [of w "[]" "[]"] by simp
next
  case (3 w v vs)
  then have w: "list_all (\<lambda>c. \<not> is_space c) w" "w \<noteq> []" by (simp_all add: plain_word_def)
  have ih: "split_ws [] (join_space (v # vs)) = v # vs" using 3 by simp
  have "split_ws [] (w @ CHR '' '' # join_space (v # vs)) =
        split_ws w (CHR '' '' # join_space (v # vs))"
    using split_ws_word [OF w(1), of "[]"] by simp
  also have "\<dots> = w # split_ws [] (join_space (v # vs))"
    using w(2) by (simp add: is_space_blank)
  finally show ?case by (simp add: ih)
qed

lemma py_split_join:
  "list_all plain_word ws \<Longrightarrow> py_split (join_space ws) = ws"
  by (cases "ws = []") (simp_all add: py_split_def split_ws_join)

lemma is_binary_take: "is_binary s \<Longrightarrow> is_binary (take n s)"
  unfolding is_binary_def list_all_iff by (auto dest: in_set_takeD)

lemma is_binary_drop: "is_binary s \<Longrightarrow> is_binary (drop n s)"
  unfolding is_binary_def list_all_iff by (auto dest: in_set_dropD)

lemma is_binary_concat: "\<forall>x\<in>set xs. is_binary (f x) \<Longrightarrow> is_binary (concat (map f xs))"
  by (induction xs) (simp_all add: is_binary_append, simp add: is_binary_def)

lemma length_concat_const:
  "\<forall>x\<in>set xs. length (f x) = m \<Longrightarrow> length (concat (map f xs)) = m * length xs"
  by (induction xs) simp_all

lemma py_int2_binary:
  "is_binary s \<Longrightarrow> s \<noteq> [] \<Longrightarrow> py_int2 s = Inr (bits_value s)"
  by (simp add: py_int2_def)

lemma byte_bits: "zfill 8 (drop 2 (py_bin (uint (b::byte)))) = to_bits 8 (unat b)"
proof -
  have "unat b < 2 ^ 8" using unsigned_less [of b, where ?'a = nat] by simp
  then have "zfill 8 (bin_digits (unat b)) = to_bits 8 (unat b)" by (rule zfill_bin_digits) simp
  moreover have "uint b = int (unat b)" by simp
  ultimately show ?thesis by (simp only: drop_py_bin)
qed

lemma index_bits: "idx < 2048 \<Longrightarrow> zfill 11 (drop 2 (py_bin (int idx))) = to_bits 11 idx"
  by (simp only: drop_py_bin) (rule zfill_bin_digits, simp_all)

lemma decode_bits:
  assumes bin: "is_binary eb" and len: "length eb = 128"
  shows "collect (map (\<lambda>i. case py_int2 (take 8 (drop i eb)) of
                              Inl e \<Rightarrow> Inl e | Inr v \<Rightarrow> to_byte v)
                     (map (\<lambda>k. 8 * k) [0..<16])) = Inr (entropy_of_bits eb)"
proof -
  let ?f = "\<lambda>i. case py_int2 (take 8 (drop i eb)) of Inl e \<Rightarrow> Inl e | Inr v \<Rightarrow> to_byte v"
  let ?g = "\<lambda>i. (word_of_int (bits_value (take 8 (drop i eb))) :: byte)"
  have "?f i = Inr (?g i)" if "i \<in> set (map (\<lambda>k. 8 * k) [0..<16])" for i
  proof -
    from that have i: "i + 8 \<le> 128" by auto
    let ?s = "take 8 (drop i eb)"
    have l: "length ?s = 8" using i len by simp
    then have ne: "?s \<noteq> []" by auto
    have b: "is_binary ?s" using bin by (intro is_binary_take is_binary_drop)
    have "bits_value ?s < 2 ^ length ?s" by (rule bits_value_less)
    then have "bits_value ?s < 2 ^ 8" by (simp only: l)
    then have v: "0 \<le> bits_value ?s" "bits_value ?s < 256"
      using bits_value_nonneg [of ?s] by simp_all
    show ?thesis by (simp add: py_int2_binary [OF b ne] to_byte_def v)
  qed
  then have "collect (map ?f (map (\<lambda>k. 8 * k) [0..<16])) = Inr (map ?g (map (\<lambda>k. 8 * k) [0..<16]))"
    by (intro collect_all_ok) blast
  then show ?thesis by (simp only: entropy_of_bits_def map_map comp_def)
qed

lemma mnemonic_to_bytes_indices:
  assumes w: "length (py_split m) = 12"
    and c: "collect (map (py_index W) (py_split m)) = Inr idxs"
    and s: "\<forall>i\<in>set idxs. i < 2048"
  shows "mnemonic_to_bytes m W =
           Inr (entropy_of_bits (take 128 (concat (map (to_bits 11) idxs))))"
proof -
  have n: "length idxs = 12" using collect_Inr_length [OF c] w by simp
  have bs: "concat (map (\<lambda>idx. zfill 11 (drop 2 (py_bin (int idx)))) idxs) =
        concat (map (to_bits 11) idxs)"
    using s by (intro arg_cong [where f = concat] map_cong refl index_bits) blast
  have l: "length (concat (map (to_bits 11) idxs)) = 132"
    using length_concat_const [of idxs "to_bits 11" 11] by (simp add: length_to_bits n)
  have b: "is_binary (take 128 (concat (map (to_bits 11) idxs)))"
    by (intro is_binary_take is_binary_concat ballI is_binary_to_bits)
  have l2: "length (take 128 (concat (map (to_bits 11) idxs))) = 128" using l by simp
  show ?thesis
    unfolding mnemonic_to_bytes_def Let_def
    by (simp only: w c bs l decode_bits [OF b l2] sum.case simp_thms if_False)
qed

lemma words_loop_ok:
  assumes bin: "is_binary tb" and W: "2048 \<le> length W"
  shows "\<forall>i\<in>set offs. i + 11 \<le> length tb \<Longrightarrow>
     words_loop tb W offs acc =
       Inr (acc @ map (\<lambda>i. W ! nat (bits_value (take 11 (drop i tb)))) offs)"
proof (induction offs arbitrary: acc)
  case Nil
  show ?case by simp
next
  case (Cons i offs)
  let ?s = "take 11 (drop i tb)"
  have l: "length ?s = 11" using Cons.prems by auto
  then have ne: "?s \<noteq> []" by auto
  have b: "is_binary ?s" using bin by (intro is_binary_take is_binary_drop)
  have "bits_value ?s < 2 ^ length ?s" by (rule bits_value_less)
  then have "bits_value ?s < 2 ^ 11" by (simp only: l)
  then have v: "0 \<le> bits_value ?s" "bits_value ?s < 2048"
    using bits_value_nonneg [of ?s] by simp_all
  have g: "py_getitem W (bits_value ?s) = Inr (W ! nat (bits_value ?s))"
    using v W by (simp add: py_getitem_def)
  have "words_loop tb W (i # offs) acc =
        words_loop tb W offs (acc @ [W ! nat (bits_value ?s)])"
    by (simp add: py_int2_binary [OF b ne] g)
  also have "\<dots> = Inr ((acc @ [W ! nat (bits_value ?s)]) @
        map (\<lambda>i. W ! nat (bits_value (take 11 (drop i tb)))) offs)"
    by (rule Cons.IH) (use Cons.prems in simp)
  finally show ?case by simp
qed

lemma total_bits_eq:
  "total_bits_of sha256 e =
     concat (map (\<lambda>b. to_bits 8 (unat b)) e) @ take 4 (to_bits 8 (unat (hd (sha256 e))))"
  by (simp only: total_bits_of_def byte_bits)

lemma length_entropy_bits: "length (concat (map (\<lambda>b. to_bits 8 (unat b)) (e::byte list))) = 8 * length e"
  by (rule length_concat_const) (simp add: length_to_bits)

lemma length_total_bits: "length e = 16 \<Longrightarrow> length (total_bits_of sha256 e) = 132"
  by (simp add: total_bits_eq length_entropy_bits length_to_bits)

lemma is_binary_total_bits: "is_binary (total_bits_of sha256 e)"
  unfolding total_bits_eq is_binary_append
  by (intro conjI is_binary_take is_binary_concat ballI is_binary_to_bits)

lemma group_index_less: "length e = 16 \<Longrightarrow> group_index (total_bits_of sha256 e) k < 2048"
proof -
  let ?s = "take 11 (drop (11 * k) (total_bits_of sha256 e))"
  have "bits_value ?s < 2 ^ length ?s" by (rule bits_value_less)
  moreover have "(2::int) ^ length ?s \<le> 2 ^ 11" by (rule power_increasing) simp_all
  ultimately have "bits_value ?s < 2048" by simp
  then show ?thesis by (simp add: group_index_def)
qed

lemma mnemonic_words_eq:
  assumes e: "length e = 16" and h: "sha256 e \<noteq> []" and W: "2048 \<le> length W"
  shows "mnemonic_words sha256 e W =
           Inr (map (\<lambda>k. W ! group_index (total_bits_of sha256 e) k) [0..<12])"
proof -
  obtain h0 hs where hh: "sha256 e = h0 # hs" using h by (cases "sha256 e") auto
  let ?tb = "total_bits_of sha256 e"
  have tb: "concat (map (\<lambda>b. zfill 8 (drop 2 (py_bin (uint b)))) e) @
        take 4 (zfill 8 (drop 2 (py_bin (uint h0)))) = ?tb"
    by (simp add: total_bits_of_def hh)
  have "words_loop ?tb W (map (\<lambda>k. 11 * k) [0..<12]) [] =
      Inr ([] @ map (\<lambda>i. W ! nat (bits_value (take 11 (drop i ?tb)))) (map (\<lambda>k. 11 * k) [0..<12]))"
    by (rule words_loop_ok [OF is_binary_total_bits W]) (auto simp: length_total_bits [OF e])
  then have wl: "words_loop ?tb W (map (\<lambda>k. 11 * k) [0..<12]) [] =
      Inr (map (\<lambda>k. W ! group_index ?tb k) [0..<12])"
    by (simp only: append_Nil map_map comp_def group_index_def)
  show ?thesis
    unfolding mnemonic_words_def Let_def
    by (simp only: e hh list.case tb length_total_bits [OF e] wl simp_thms if_False)
qed

lemma collect_present:
  "set ws \<subseteq> set W \<Longrightarrow>
     \<exists>idxs. collect (map (py_index W) ws) = Inr idxs \<and> length idxs = length ws \<and>
       (\<forall>k<length ws. py_index W (ws ! k) = Inr (idxs ! k) \<and> idxs ! k < length W)"
proof (induction ws)
  case Nil
  show ?case by simp
next
  case (Cons w ws)
  then obtain idxs where i: "collect (map (py_index W) ws) = Inr idxs" "length idxs = length ws"
      "\<forall>k<length ws. py_index W (ws ! k) = Inr (idxs ! k) \<and> idxs ! k < length W"
    by auto
  from Cons.prems obtain j where j: "py_index W w = Inr j" "j < length W"
    using py_index_present [of w W] by auto
  have "\<forall>k<length (w # ws). py_index W ((w # ws) ! k) = Inr ((j # idxs) ! k) \<and> (j # idxs) ! k < length W"
    using i(3) j by (auto simp: nth_Cons split: nat.splits)
  then show ?case using i j by (intro exI [of _ "j # idxs"]) simp
qed

lemma collect_absent:
  assumes "\<not> set ws \<subseteq> set W"
  shows "\<exists>w\<in>set ws. w \<notin> set W \<and> collect (map (py_index W) ws) = Inl (NotInList w)"
proof -
  from assms obtain v where v: "v \<in> set ws" "v \<notin> set W" by auto
  have "\<exists>e. collect (map (py_index W) ws) = Inl e"
  proof (cases "collect (map (py_index W) ws)")
    case (Inl e)
    then show ?thesis by simp
  next
    case (Inr idxs)
    have "\<forall>r\<in>set rs. \<exists>x. r = Inr x" if "collect rs = Inr vs" for rs :: "(error + nat) list" and vs
      using that by (induction rs arbitrary: vs) (auto split: sum.splits)
    from this [OF Inr] v(1) have "\<exists>x. py_index W v = Inr x" by auto
    then show ?thesis using py_index_absent [OF v(2)] by simp
  qed
  then obtain e where e: "collect (map (py_index W) ws) = Inl e" by blast
  from collect_Inl [OF e] obtain w where w: "w \<in> set ws" "py_index W w = Inl e" by auto
  from py_index_Inl [OF w(2)] w(1) e show ?thesis by auto
qed

lemma decode_error_not_length:
  assumes "collect (map (\<lambda>i. case py_int2 (take 8 (drop i eb)) of
                              Inl e \<Rightarrow> Inl e | Inr v \<Rightarrow> to_byte v) offs) = Inl err"
  shows "err \<noteq> ValueError ''Mnemonic must have 12 words''"
proof -
  from collect_Inl [OF assms] obtain i where
    "(case py_int2 (take 8 (drop i eb)) of Inl e \<Rightarrow> Inl e | Inr v \<Rightarrow> to_byte v) = Inl err"
    by auto
  then show ?thesis
    by (auto simp: py_int2_def to_byte_def split: sum.splits if_splits)
qed

lemma mnemonic_to_bytes_length_error:
  "(mnemonic_to_bytes m W = Inl (ValueError ''Mnemonic must have 12 words'')) =
     (length (py_split m) \<noteq> 12)"
proof (cases "length (py_split m) = 12")
  case False
  then show ?thesis by (simp add: mnemonic_to_bytes_def)
next
  case True
  have "mnemonic_to_bytes m W \<noteq> Inl (ValueError ''Mnemonic must have 12 words'')"
  proof (cases "collect (map (py_index W) (py_split m))")
    case (Inl e)
    from collect_Inl [OF Inl] obtain w where "py_index W w = Inl e" by auto
    then have "e = NotInList w" using py_index_Inl by blast
    then show ?thesis using True Inl by (simp add: mnemonic_to_bytes_def)
  next
    case (Inr idxs)
    show ?thesis
    proof
      assume a: "mnemonic_to_bytes m W = Inl (ValueError ''Mnemonic must have 12 words'')"
      let ?bs = "concat (map (\<lambda>idx. zfill 11 (drop 2 (py_bin (int idx)))) idxs)"
      show False
      proof (cases "length ?bs = 132")
        case False
        then show False using a True Inr by (simp add: mnemonic_to_bytes_def)
      next
        case l: True
        then have "collect (map (\<lambda>i. case py_int2 (take 8 (drop i (take 128 ?bs))) of
                              Inl e \<Rightarrow> Inl e | Inr v \<Rightarrow> to_byte v) (map (\<lambda>k. 8 * k) [0..<16])) =
            Inl (ValueError ''Mnemonic must have 12 words'')"
          using a True Inr by (simp add: mnemonic_to_bytes_def Let_def del: upt_Suc)
        from decode_error_not_length [OF this] show False by simp
      qed
    qed
  qed
  then show ?thesis using True by simp
qed

lemma length_entropy_of_bits: "length (entropy_of_bits s) = 16"
  by (simp add: entropy_of_bits_def)

lemma mnemonic_to_bytes_known_words:
  assumes w: "length (py_split m) = 12" and s: "set (py_split m) \<subseteq> set W" and W: "length W \<le> 2048"
  shows "\<exists>idxs. collect (map (py_index W) (py_split m)) = Inr idxs \<and> length idxs = 12 \<and>
           (\<forall>k<12. py_index W (py_split m ! k) = Inr (idxs ! k)) \<and>
           mnemonic_to_bytes m W = Inr (entropy_of_bits (take 128 (concat (map (to_bits 11) idxs))))"
proof -
  from collect_present [OF s] w obtain idxs where
    i: "collect (map (py_index W) (py_split m)) = Inr idxs" "length idxs = 12"
       "\<forall>k<12. py_index W (py_split m ! k) = Inr (idxs ! k) \<and> idxs ! k < length W"
    by auto
  have "\<forall>i\<in>set idxs. i < 2048"
  proof
    fix x assume "x \<in> set idxs"
    then obtain k where "k < 12" "x = idxs ! k" using i(2) by (auto simp: in_set_conv_nth)
    then have "x < length W" using i(3) by blast
    then show "x < 2048" using W by linarith
  qed
  from mnemonic_to_bytes_indices [OF w i(1) this] i show ?thesis by auto
qed

text \<open>
  C6. \<open>mnemonic_to_bytes\<close> fails with the error of the word-count check exactly when the
  whitespace-split word count is not 12; with 12 words of which some are absent from the
  word list it fails with the error of \<open>list.index\<close> for an absent word; and with 12
  words that are all in a word list of at most 2048 entries it returns exactly 16 bytes.
\<close>

theorem mnemonic_to_bytes_outcomes:
  "((mnemonic_to_bytes m W = Inl (ValueError ''Mnemonic must have 12 words'')) =
      (length (py_split m) \<noteq> 12)) \<and>
   (length (py_split m) = 12 \<and> \<not> set (py_split m) \<subseteq> set W \<longrightarrow>
      (\<exists>w\<in>set (py_split m). w \<notin> set W \<and> mnemonic_to_bytes m W = Inl (NotInList w))) \<and>
   (length (py_split m) = 12 \<and> set (py_split m) \<subseteq> set W \<and> length W \<le> 2048 \<longrightarrow>
      (\<exists>entropy. mnemonic_to_bytes m W = Inr entropy \<and> length entropy = 16))"
proof (intro conjI impI)
  show "(mnemonic_to_bytes m W = Inl (ValueError ''Mnemonic must have 12 words'')) =
      (length (py_split m) \<noteq> 12)"
    by (rule mnemonic_to_bytes_length_error)
next
  assume a: "length (py_split m) = 12 \<and> \<not> set (py_split m) \<subseteq> set W"
  then obtain w where w: "w \<in> set (py_split m)" "w \<notin> set W"
      "collect (map (py_index W) (py_split m)) = Inl (NotInList w)"
    using collect_absent [of "py_split m" W] by auto
  then have "mnemonic_to_bytes m W = Inl (NotInList w)"
    using a by (simp add: mnemonic_to_bytes_def)
  with w show "\<exists>w\<in>set (py_split m). w \<notin> set W \<and> mnemonic_to_bytes m W = Inl (NotInList w)"
    by blast
next
  assume a: "length (py_split m) = 12 \<and> set (py_split m) \<subseteq> set W \<and> length W \<le> 2048"
  then obtain idxs where
    "mnemonic_to_bytes m W = Inr (entropy_of_bits (take 128 (concat (map (to_bits 11) idxs))))"
    using mnemonic_to_bytes_known_words [of m W] by auto
  then show "\<exists>entropy. mnemonic_to_bytes m W = Inr entropy \<and> length entropy = 16"
    by (simp add: length_entropy_of_bits)
qed

lemma py_split_samples:
  "py_split ''a b'' = [''a'', ''b'']"
  "py_split ''b a a a a a a a a a b c'' =
     [''b'', ''a'', ''a'', ''a'', ''a'', ''a'', ''a'', ''a'', ''a'', ''a'', ''b'', ''c'']"
  "py_split ''a a a a a a a a a a a b'' =
     [''a'', ''a'', ''a'', ''a'', ''a'', ''a'', ''a'', ''a'', ''a'', ''a'', ''a'', ''b'']"
  "py_split ''a a a a a a a a a a a a'' =
     [''a'', ''a'', ''a'', ''a'', ''a'', ''a'', ''a'', ''a'', ''a'', ''a'', ''a'', ''a'']"
  by (simp_all add: py_split_def is_space_def)

theorem mnemonic_to_bytes_outcomes_witness:
  "mnemonic_to_bytes ''a b'' [''a'', ''b''] = Inl (ValueError ''Mnemonic must have 12 words'') \<and>
   mnemonic_to_bytes ''b a a a a a a a a a b c'' [''a'', ''b''] = Inl (NotInList ''c'') \<and>
   (\<exists>entropy. mnemonic_to_bytes ''a a a a a a a a a a a b'' [''a'', ''b''] = Inr entropy \<and>
      length entropy = 16)"
proof -
  have "mnemonic_to_bytes ''a b'' [''a'', ''b''] = Inl (ValueError ''Mnemonic must have 12 words'')"
    using mnemonic_to_bytes_outcomes [of "''a b''" "[''a'', ''b'']"]
    by (simp add: py_split_samples)
  moreover have "mnemonic_to_bytes ''b a a a a a a a a a b c'' [''a'', ''b''] = Inl (NotInList ''c'')"
    using mnemonic_to_bytes_outcomes [of "''b a a a a a a a a a b c''" "[''a'', ''b'']"]
    by (auto simp: py_split_samples)
  moreover have "\<exists>entropy. mnemonic_to_bytes ''a a a a a a a a a a a b'' [''a'', ''b''] = Inr entropy \<and>
      length entropy = 16"
    using mnemonic_to_bytes_outcomes [of "''a a a a a a a a a a a b''" "[''a'', ''b'']"]
    by (simp add: py_split_samples)
  ultimately show ?thesis by blast
qed

lemma sample_wordlist_length: "length sample_wordlist = 2048"
  by (simp add: sample_wordlist_def)

lemma sample_wordlist_distinct: "distinct sample_wordlist"
proof -
  have "inj_on (\<lambda>i. replicate (Suc i) CHR ''a'') (set [0..<2048])"
    by (rule inj_onI) (metis length_replicate nat.inject)
  then show ?thesis unfolding sample_wordlist_def by (simp only: distinct_map distinct_upt simp_thms)
qed

lemma sample_wordlist_plain: "list_all plain_word sample_wordlist"
  unfolding sample_wordlist_def list_all_iff
  by (auto simp: plain_word_def is_space_def list_all_iff)

lemma spaced_wordlist_length: "length spaced_wordlist = 2048"
  by (simp add: spaced_wordlist_def)

lemma spaced_wordlist_distinct: "distinct spaced_wordlist"
proof -
  have "inj_on (\<lambda>i. ''a b'' @ replicate i CHR ''c'') (set [0..<2048])"
    by (rule inj_onI) (metis length_replicate same_append_eq)
  then show ?thesis unfolding spaced_wordlist_def by (simp only: distinct_map distinct_upt simp_thms)
qed

lemma group_slice:
  assumes "length e = 16" "k < 12"
  shows "py_int2 (take 11 (drop (11 * k) (total_bits_of sha256 e))) =
           Inr (int (group_index (total_bits_of sha256 e) k))"
proof -
  let ?s = "take 11 (drop (11 * k) (total_bits_of sha256 e))"
  have "length ?s = 11" using assms by (simp add: length_total_bits)
  then have ne: "?s \<noteq> []" by auto
  have b: "is_binary ?s" by (intro is_binary_take is_binary_drop is_binary_total_bits)
  show ?thesis
    using bits_value_nonneg [of ?s] by (simp add: py_int2_binary [OF b ne] group_index_def)
qed

lemma byte_of_bits: "word_of_int (bits_value (to_bits 8 (unat (b::byte)))) = b"
proof -
  have "unat b < 2 ^ 8" using unsigned_less [of b, where ?'a = nat] by simp
  then have "bits_value (to_bits 8 (unat b)) = int (unat b)" by (rule bits_value_to_bits)
  then show ?thesis by simp
qed

lemma entropy_of_entropy_bits:
  assumes "length e = 16"
  shows "entropy_of_bits (concat (map (\<lambda>b. to_bits 8 (unat b)) e)) = e"
proof -
  have s: "take 8 (drop (8 * k) (concat (map (\<lambda>b. to_bits 8 (unat b)) e))) = to_bits 8 (unat (e ! k))"
    if "k < 16" for k
  proof -
    have "take 8 (drop (8 * k) (concat (map (\<lambda>b. to_bits 8 (unat b)) e))) =
        map (\<lambda>b. to_bits 8 (unat b)) e ! k"
      by (rule slice_concat) (simp_all add: length_to_bits assms that)
    then show ?thesis using that assms by simp
  qed
  have "entropy_of_bits (concat (map (\<lambda>b. to_bits 8 (unat b)) e)) = map (\<lambda>k. e ! k) [0..<16]"
    unfolding entropy_of_bits_def
    by (rule map_cong [OF refl]) (simp add: s byte_of_bits del: upt_Suc)
  also have "\<dots> = e" using map_nth [of e] by (simp only: assms)
  finally show ?thesis .
qed

lemma group_bits:
  assumes "length e = 16" "k < 12"
  shows "to_bits 11 (group_index (total_bits_of sha256 e) k) =
           take 11 (drop (11 * k) (total_bits_of sha256 e))"
proof -
  let ?s = "take 11 (drop (11 * k) (total_bits_of sha256 e))"
  have l: "length ?s = 11" using assms by (simp add: length_total_bits)
  have b: "is_binary ?s" by (intro is_binary_take is_binary_drop is_binary_total_bits)
  have "to_bits (length ?s) (nat (bits_value ?s)) = ?s" using b by (rule to_bits_bits_value)
  then show ?thesis by (simp only: l group_index_def)
qed

lemma decode_groups:
  assumes e: "length e = 16"
  shows "entropy_of_bits (take 128 (concat (map (to_bits 11)
           (map (group_index (total_bits_of sha256 e)) [0..<12])))) = e"
proof -
  let ?tb = "total_bits_of sha256 e"
  have "concat (map (to_bits 11) (map (group_index ?tb) [0..<12])) =
        concat (map (\<lambda>k. take 11 (drop (11 * k) ?tb)) [0..<12])"
    unfolding map_map comp_def
    by (intro arg_cong [where f = concat] map_cong refl group_bits [OF e]) simp
  also have "\<dots> = ?tb"
    by (rule concat_slices) (simp add: length_total_bits [OF e])
  finally have c: "concat (map (to_bits 11) (map (group_index ?tb) [0..<12])) = ?tb" .
  have "take 128 ?tb = concat (map (\<lambda>b. to_bits 8 (unat b)) e)"
    by (simp add: total_bits_eq length_entropy_bits e)
  then show ?thesis by (simp only: c entropy_of_entropy_bits [OF e])
qed

lemma roundtrip:
  assumes e: "length e = 16" and W: "length W = 2048" and d: "distinct W"
    and p: "list_all plain_word W" and h: "sha256 e \<noteq> []"
  shows "bytes_to_mnemonic sha256 e W =
           Inr (join_space (map (\<lambda>k. W ! group_index (total_bits_of sha256 e) k) [0..<12]))"
    and "mnemonic_to_bytes
           (join_space (map (\<lambda>k. W ! group_index (total_bits_of sha256 e) k) [0..<12])) W = Inr e"
proof -
  let ?g = "group_index (total_bits_of sha256 e)"
  let ?ws = "map (\<lambda>k. W ! ?g k) [0..<12]"
  have g: "?g k < length W" for k using group_index_less [OF e, of sha256 k] W by simp
  have "mnemonic_words sha256 e W = Inr ?ws"
    by (rule mnemonic_words_eq) (simp_all add: e h W)
  then show "bytes_to_mnemonic sha256 e W = Inr (join_space ?ws)"
    by (simp only: bytes_to_mnemonic_def sum.case)
  have "list_all plain_word ?ws"
    using p g unfolding list_all_iff by (auto simp del: upt_Suc)
  then have sp: "py_split (join_space ?ws) = ?ws" by (rule py_split_join)
  have "collect (map (\<lambda>k. py_index W (W ! ?g k)) [0..<12]) = Inr (map ?g [0..<12])"
    by (rule collect_all_ok) (simp add: py_index_nth [OF d g] del: upt_Suc)
  then have c: "collect (map (py_index W) (py_split (join_space ?ws))) = Inr (map ?g [0..<12])"
    by (simp only: sp map_map comp_def)
  have l: "length (py_split (join_space ?ws)) = 12" by (simp only: sp) simp
  have s: "\<forall>i\<in>set (map ?g [0..<12]). i < 2048"
    using group_index_less [OF e, of sha256] by (auto simp del: upt_Suc)
  show "mnemonic_to_bytes (join_space ?ws) W = Inr e"
    by (simp only: mnemonic_to_bytes_indices [OF l c s] decode_groups [OF e])
qed

text \<open>
  C2, amended. For every 16-byte entropy \<open>e\<close> and every word list of 2048 distinct words,
  each non-empty and free of whitespace, encoding \<open>e\<close> succeeds and decoding the result
  returns exactly \<open>e\<close>.
\<close>

theorem codec_roundtrip:
  assumes "length e = 16" "length W = 2048" "distinct W" "list_all plain_word W" "sha256 e \<noteq> []"
  shows "\<exists>m. bytes_to_mnemonic sha256 e W = Inr m \<and> mnemonic_to_bytes m W = Inr e"
  using assms roundtrip(1) [of e W sha256] roundtrip(2) [of e W sha256] by blast

theorem codec_roundtrip_witness:
  "\<exists>m. bytes_to_mnemonic zero_digest (replicate 16 0) sample_wordlist = Inr m \<and>
     mnemonic_to_bytes m sample_wordlist = Inr (replicate 16 0)"
proof -
  have "length (replicate 16 (0::byte)) = 16" "zero_digest (replicate 16 0) \<noteq> []"
    by (simp_all add: zero_digest_def)
  with sample_wordlist_length sample_wordlist_distinct sample_wordlist_plain
    codec_roundtrip [of "replicate 16 0" sample_wordlist zero_digest]
  show ?thesis by blast
qed

lemma bits_value_zeros: "bits_value (replicate n CHR ''0'') = 0"
proof (induction n)
  case 0
  show ?case by (simp add: bits_value_def)
next
  case (Suc n)
  have "replicate (Suc n) CHR ''0'' = replicate n CHR ''0'' @ [CHR ''0'']"
    by (simp add: replicate_append_same)
  then show ?case by (simp only: bits_value_snoc Suc) simp
qed

lemma concat_replicate_const: "concat (replicate n (replicate m c)) = replicate (n * m) c"
  by (induction n) (simp_all add: replicate_add)

lemma zero_total_bits: "total_bits_of zero_digest (replicate 16 0) = replicate 132 CHR ''0''"
proof -
  have "concat (map (\<lambda>b. to_bits 8 (unat b)) (replicate 16 (0::byte))) = replicate 128 CHR ''0''"
    by (simp add: to_bits_zero concat_replicate_const)
  then show ?thesis
    by (simp add: total_bits_eq zero_digest_def to_bits_zero flip: replicate_add)
qed

lemma zero_group_index: "group_index (total_bits_of zero_digest (replicate 16 0)) k = 0"
proof -
  have "take 11 (drop (11 * k) (replicate 132 CHR ''0'')) = replicate (min 11 (132 - 11 * k)) CHR ''0''"
    by simp
  then show ?thesis by (simp only: group_index_def zero_total_bits bits_value_zeros nat_0)
qed

text \<open>
  C2, as the claim states it, fails: a list of 2048 distinct words in which a word contains
  a blank is encoded into a text that splits into more than twelve words.
\<close>

theorem codec_roundtrip_counterexample:
  "length spaced_wordlist = 2048 \<and> distinct spaced_wordlist \<and>
   length (replicate 16 (0::byte)) = 16 \<and>
   bytes_to_mnemonic zero_digest (replicate 16 0) spaced_wordlist =
     Inr ''a b a b a b a b a b a b a b a b a b a b a b a b'' \<and>
   mnemonic_to_bytes ''a b a b a b a b a b a b a b a b a b a b a b a b'' spaced_wordlist =
     Inl (ValueError ''Mnemonic must have 12 words'')"
proof -
  have w0: "spaced_wordlist ! 0 = ''a b''" by (simp add: spaced_wordlist_def)
  have "mnemonic_words zero_digest (replicate 16 0) spaced_wordlist =
      Inr (map (\<lambda>k. spaced_wordlist ! group_index (total_bits_of zero_digest (replicate 16 0)) k) [0..<12])"
    by (rule mnemonic_words_eq) (simp_all add: zero_digest_def spaced_wordlist_length)
  then have "mnemonic_words zero_digest (replicate 16 0) spaced_wordlist =
      Inr (map (\<lambda>k. ''a b'') [0..<12])"
    by (simp only: zero_group_index w0)
  then have enc: "bytes_to_mnemonic zero_digest (replicate 16 0) spaced_wordlist =
     Inr ''a b a b a b a b a b a b a b a b a b a b a b a b''"
    by (simp add: bytes_to_mnemonic_def upt_rec)
  have "length (py_split ''a b a b a b a b a b a b a b a b a b a b a b a b'') = 24"
    by (simp add: py_split_def is_space_def)
  then have dec: "mnemonic_to_bytes ''a b a b a b a b a b a b a b a b a b a b a b a b'' spaced_wordlist =
     Inl (ValueError ''Mnemonic must have 12 words'')"
    by (simp add: mnemonic_to_bytes_def)
  from enc dec spaced_wordlist_length spaced_wordlist_distinct show ?thesis by simp
qed

lemma take_to_bits: "take k (to_bits (k + j) n) = to_bits k (n div 2 ^ j)"
proof (induction j arbitrary: n)
  case 0
  show ?case by (simp add: length_to_bits)
next
  case (Suc j)
  have "take k (to_bits (k + Suc j) n) = take k (to_bits (k + j) (n div 2))"
    by (simp add: length_to_bits)
  also have "\<dots> = to_bits k (n div 2 div 2 ^ j)" by (rule Suc.IH)
  also have "n div 2 div 2 ^ j = n div 2 ^ Suc j" by (simp add: div_mult2_eq)
  finally show ?case .
qed

lemma entropy_bits_of_indices:
  assumes "length pre = 11"
  shows "take 128 (concat (map (to_bits 11) (pre @ [i]))) =
           concat (map (to_bits 11) pre) @ to_bits 7 (i div 16)"
proof -
  have l: "length (concat (map (to_bits 11) pre)) = 121"
    using length_concat_const [of pre "to_bits 11" 11] by (simp add: length_to_bits assms)
  have "take 7 (to_bits (7 + 4) i) = to_bits 7 (i div 2 ^ 4)" by (rule take_to_bits)
  then have "take 7 (to_bits 11 i) = to_bits 7 (i div 16)" by simp
  then show ?thesis by (simp add: l)
qed

lemma bit_string_to_bits:
  "\<forall>i\<in>set idxs. i < 2048 \<Longrightarrow>
     concat (map (\<lambda>idx. zfill 11 (drop 2 (py_bin (int idx)))) idxs) = concat (map (to_bits 11) idxs)"
  by (intro arg_cong [where f = concat] map_cong refl index_bits) blast

lemma mnemonic_to_bytes_leading_bits:
  assumes w: "length (py_split m) = 12" and s: "set (py_split m) \<subseteq> set W" and W: "length W \<le> 2048"
  shows "\<exists>idxs. length idxs = 12 \<and>
           (\<forall>k<12. py_index W (py_split m ! k) = Inr (idxs ! k)) \<and>
           (\<forall>i\<in>set idxs. i < 2048) \<and>
           mnemonic_to_bytes m W = Inr (entropy_of_bits (take 128 (concat (map (to_bits 11) idxs))))"
proof -
  from collect_present [OF s] w obtain idxs where
    i: "collect (map (py_index W) (py_split m)) = Inr idxs" "length idxs = 12"
       "\<forall>k<12. py_index W (py_split m ! k) = Inr (idxs ! k) \<and> idxs ! k < length W"
    by auto
  have b: "\<forall>i\<in>set idxs. i < 2048"
  proof
    fix x assume "x \<in> set idxs"
    then obtain k where "k < 12" "x = idxs ! k" using i(2) by (auto simp: in_set_conv_nth)
    then have "x < length W" using i(3) by blast
    then show "x < 2048" using W by linarith
  qed
  from mnemonic_to_bytes_indices [OF w i(1) b] i b show ?thesis by blast
qed

lemma py_split_samples2:
  "py_split ''b a a a a a a a a a b a'' =
     [''b'', ''a'', ''a'', ''a'', ''a'', ''a'', ''a'', ''a'', ''a'', ''a'', ''b'', ''a'']"
  "py_split ''b a a a a a a a a a b b'' =
     [''b'', ''a'', ''a'', ''a'', ''a'', ''a'', ''a'', ''a'', ''a'', ''a'', ''b'', ''b'']"
  by (simp_all add: py_split_def is_space_def)

lemma to_bits_11_samples:
  "to_bits 11 0 = ''00000000000''" "to_bits 11 1 = ''00000000001''"
  "to_bits 11 (Suc 0) = ''00000000001''"
  by (simp_all add: eval_nat_numeral bit_char_def)

lemma sample_entropy:
  "mnemonic_to_bytes ''b a a a a a a a a a b a'' [''a'', ''b''] =
     Inr [0, 32, 0, 0, 0, 0, 0, 0, 0, 0, 0, 0, 0, 0, 0, 128]"
proof -
  have "mnemonic_to_bytes ''b a a a a a a a a a b a'' [''a'', ''b''] =
      Inr (entropy_of_bits (take 128 (concat (map (to_bits 11) [1, 0, 0, 0, 0, 0, 0, 0, 0, 0, 1, 0]))))"
    by (rule mnemonic_to_bytes_indices) (simp_all add: py_split_samples2)
  then show ?thesis
    by (simp add: to_bits_11_samples entropy_of_bits_def upt_rec bits_value_def)
qed

text \<open>
  C4. Decoding never looks at the embedded checksum. A 12-word mnemonic whose words are all
  in a word list of at most 2048 words decodes, without error, to the 16 bytes read off the
  leading 128 bits of the concatenated 11-bit indices of its words. A second such mnemonic
  that agrees on the first eleven words, and whose last word has an index differing only in
  the four low (checksum) bits, decodes to the same result.
\<close>

theorem decode_ignores_checksum:
  assumes "length (py_split m) = 12" "length (py_split m') = 12"
    and "set (py_split m) \<subseteq> set W" "set (py_split m') \<subseteq> set W" "length W \<le> 2048"
    and "take 11 (py_split m) = take 11 (py_split m')"
    and "py_index W (py_split m ! 11) = Inr i" "py_index W (py_split m' ! 11) = Inr i'"
    and "i div 16 = i' div 16"
  shows "\<exists>idxs idxs'.
     length idxs = 12 \<and> length idxs' = 12 \<and>
     list_all (\<lambda>k. py_index W (py_split m ! k) = Inr (idxs ! k) \<and>
                    py_index W (py_split m' ! k) = Inr (idxs' ! k)) [0..<12] \<and>
     mnemonic_to_bytes m W =
       Inr (entropy_of_bits (take 128
              (concat (map (\<lambda>idx. zfill 11 (drop 2 (py_bin (int idx)))) idxs)))) \<and>
     mnemonic_to_bytes m' W =
       Inr (entropy_of_bits (take 128
              (concat (map (\<lambda>idx. zfill 11 (drop 2 (py_bin (int idx)))) idxs')))) \<and>
     mnemonic_to_bytes m' W = mnemonic_to_bytes m W \<and>
     length (entropy_of_bits (take 128
              (concat (map (\<lambda>idx. zfill 11 (drop 2 (py_bin (int idx)))) idxs)))) = 16"
proof -
  from mnemonic_to_bytes_leading_bits [OF assms(1,3,5)] obtain idxs where
    a: "length idxs = 12" "\<forall>k<12. py_index W (py_split m ! k) = Inr (idxs ! k)"
       "\<forall>i\<in>set idxs. i < 2048"
       "mnemonic_to_bytes m W = Inr (entropy_of_bits (take 128 (concat (map (to_bits 11) idxs))))"
    by blast
  from mnemonic_to_bytes_leading_bits [OF assms(2,4,5)] obtain idxs' where
    b: "length idxs' = 12" "\<forall>k<12. py_index W (py_split m' ! k) = Inr (idxs' ! k)"
       "\<forall>i\<in>set idxs'. i < 2048"
       "mnemonic_to_bytes m' W = Inr (entropy_of_bits (take 128 (concat (map (to_bits 11) idxs'))))"
    by blast
  have same: "idxs ! k = idxs' ! k" if "k < 11" for k
  proof -
    have "py_split m ! k = py_split m' ! k"
      using that assms(6) by (metis nth_take)
    moreover have "k < 12" using that by simp
    ultimately have "Inr (idxs ! k) = (Inr (idxs' ! k) :: error + nat)"
      using a(2) b(2) by metis
    then show ?thesis by simp
  qed
  have pre: "take 11 idxs = take 11 idxs'"
    by (rule nth_equalityI) (simp_all add: a(1) b(1) same)
  have i: "idxs ! 11 = i" "idxs' ! 11 = i'"
    using a(2) b(2) assms(7,8) by auto
  have "take (Suc 11) idxs = take 11 idxs @ [idxs ! 11]"
    by (rule take_Suc_conv_app_nth) (simp add: a(1))
  then have sa: "idxs = take 11 idxs @ [i]" using a(1) i(1) by simp
  have "take (Suc 11) idxs' = take 11 idxs' @ [idxs' ! 11]"
    by (rule take_Suc_conv_app_nth) (simp add: b(1))
  then have sb: "idxs' = take 11 idxs @ [i']" using b(1) i(2) pre by simp
  have lp: "length (take 11 idxs) = 11" using a(1) by simp
  have "take 128 (concat (map (to_bits 11) idxs)) =
        concat (map (to_bits 11) (take 11 idxs)) @ to_bits 7 (i div 16)"
    using entropy_bits_of_indices [OF lp, of i] sa by simp
  moreover have "take 128 (concat (map (to_bits 11) idxs')) =
        concat (map (to_bits 11) (take 11 idxs)) @ to_bits 7 (i' div 16)"
    using entropy_bits_of_indices [OF lp, of i'] sb by simp
  ultimately have eq: "take 128 (concat (map (to_bits 11) idxs')) =
        take 128 (concat (map (to_bits 11) idxs))"
    by (simp only: assms(9))
  have ks: "list_all (\<lambda>k. py_index W (py_split m ! k) = Inr (idxs ! k) \<and>
                    py_index W (py_split m' ! k) = Inr (idxs' ! k)) [0..<12]"
    unfolding list_all_iff using a(2) b(2) by (auto simp del: upt_Suc)
  have za: "concat (map (\<lambda>idx. zfill 11 (drop 2 (py_bin (int idx)))) idxs) =
      concat (map (to_bits 11) idxs)"
    using a(3) by (rule bit_string_to_bits)
  have zb: "concat (map (\<lambda>idx. zfill 11 (drop 2 (py_bin (int idx)))) idxs') =
      concat (map (to_bits 11) idxs')"
    using b(3) by (rule bit_string_to_bits)
  have "mnemonic_to_bytes m' W = mnemonic_to_bytes m W" by (simp only: a(4) b(4) eq)
  with a(1,4) b(1,4) ks show ?thesis
    by (intro exI [of _ idxs] exI [of _ idxs']) (simp only: za zb length_entropy_of_bits simp_thms)
qed

theorem decode_ignores_checksum_witness:
  "mnemonic_to_bytes ''b a a a a a a a a a b a'' [''a'', ''b''] =
     Inr [0, 32, 0, 0, 0, 0, 0, 0, 0, 0, 0, 0, 0, 0, 0, 128] \<and>
   mnemonic_to_bytes ''b a a a a a a a a a b b'' [''a'', ''b''] =
     Inr [0, 32, 0, 0, 0, 0, 0, 0, 0, 0, 0, 0, 0, 0, 0, 128]"
proof -
  have h: "length (py_split ''b a a a a a a a a a b a'') = 12"
      "length (py_split ''b a a a a a a a a a b b'') = 12"
      "set (py_split ''b a a a a a a a a a b a'') \<subseteq> set [''a'', ''b'']"
      "set (py_split ''b a a a a a a a a a b b'') \<subseteq> set [''a'', ''b'']"
      "length [''a'', ''b''] \<le> 2048"
      "take 11 (py_split ''b a a a a a a a a a b a'') = take 11 (py_split ''b a a a a a a a a a b b'')"
      "py_index [''a'', ''b''] (py_split ''b a a a a a a a a a b a'' ! 11) = Inr 0"
      "py_index [''a'', ''b''] (py_split ''b a a a a a a a a a b b'' ! 11) = Inr 1"
      "(0::nat) div 16 = 1 div 16"
    by (simp_all add: py_split_samples2)
  have "mnemonic_to_bytes ''b a a a a a a a a a b b'' [''a'', ''b''] =
        mnemonic_to_bytes ''b a a a a a a a a a b a'' [''a'', ''b'']"
    using decode_ignores_checksum [OF h] by blast
  with sample_entropy show ?thesis by simp
qed

lemma sample_wordlist_0: "sample_wordlist ! 0 = ''a''"
  by (simp add: sample_wordlist_def)

lemma zero_mnemonic:
  "bytes_to_mnemonic zero_digest (replicate 16 0) sample_wordlist = Inr ''a a a a a a a a a a a a''"
proof -
  have "mnemonic_words zero_digest (replicate 16 0) sample_wordlist =
      Inr (map (\<lambda>k. sample_wordlist ! group_index (total_bits_of zero_digest (replicate 16 0)) k) [0..<12])"
    by (rule mnemonic_words_eq) (simp_all add: zero_digest_def sample_wordlist_length)
  then have "mnemonic_words zero_digest (replicate 16 0) sample_wordlist =
      Inr (map (\<lambda>k. ''a'') [0..<12])"
    by (simp only: zero_group_index sample_wordlist_0)
  then show ?thesis by (simp add: bytes_to_mnemonic_def upt_rec)
qed

lemma digest_37_total_bits:
  "total_bits_of digest_37 (replicate 16 0) =
     concat (replicate 11 (replicate 11 CHR ''0'') @ [''00000000011''])"
proof -
  have "concat (map (\<lambda>b. to_bits 8 (unat b)) (replicate 16 (0::byte))) = replicate 128 CHR ''0''"
    by (simp add: to_bits_zero concat_replicate_const)
  moreover have "to_bits 8 55 = ''00110111''"
  proof -
    have e: "(8::nat) = Suc (Suc (Suc (Suc (Suc (Suc (Suc (Suc 0)))))))" by simp
    show ?thesis by (simp only: e to_bits.simps) (simp add: bit_char_def)
  qed
  moreover have "concat (replicate 11 (replicate 11 CHR ''0'')) = replicate 121 CHR ''0''"
    by (simp add: concat_replicate_const)
  moreover have "replicate 128 CHR ''0'' = replicate 121 CHR ''0'' @ ''0000000''"
  proof -
    have "replicate (121 + 7) CHR ''0'' = replicate 121 CHR ''0'' @ replicate 7 CHR ''0''"
      by (rule replicate_add)
    moreover have "replicate 7 CHR ''0'' = ''0000000''" by (simp add: eval_nat_numeral)
    ultimately show ?thesis by simp
  qed
  ultimately show ?thesis
    by (simp add: total_bits_eq digest_37_def)
qed

lemma digest_37_groups:
  "map (group_index (total_bits_of digest_37 (replicate 16 0))) [0..<12] =
     [0, 0, 0, 0, 0, 0, 0, 0, 0, 0, 0, 3]"
proof -
  define gs where "gs = replicate 11 (replicate 11 CHR ''0'') @ [''00000000011'']"
  have tb: "total_bits_of digest_37 (replicate 16 0) = concat gs"
    by (simp only: gs_def digest_37_total_bits)
  have s: "take 11 (drop (11 * k) (concat gs)) = gs ! k" if "k < 12" for k
    by (rule slice_concat) (use that in \<open>auto simp: gs_def\<close>)
  have "map (group_index (total_bits_of digest_37 (replicate 16 0))) [0..<12] =
        map (\<lambda>k. nat (bits_value (gs ! k))) [0..<12]"
    unfolding group_index_def tb
    by (rule map_cong [OF refl]) (simp add: s del: upt_Suc)
  also have "\<dots> = [0, 0, 0, 0, 0, 0, 0, 0, 0, 0, 0, 3]"
    by (simp add: gs_def upt_rec nth_append bits_value_zeros) (simp add: bits_value_def)
  finally show ?thesis .
qed

lemma spaced_wordlist_samples:
  "spaced_wordlist ! 0 = ''a b''" "spaced_wordlist ! 3 = ''a bccc''"
proof -
  have r: "replicate 3 CHR ''c'' = ''ccc''" by (simp add: eval_nat_numeral)
  show "spaced_wordlist ! 0 = ''a b''" by (simp add: spaced_wordlist_def)
  show "spaced_wordlist ! 3 = ''a bccc''" by (simp add: spaced_wordlist_def r)
qed

lemma spaced_wordlist_no_a: "''a'' \<notin> set spaced_wordlist"
  by (auto simp: spaced_wordlist_def)

text \<open>
  C9, amended. For every 16-byte entropy and every word list of exactly 2048 words, each
  non-empty and free of whitespace, the text returned by \<open>bytes_to_mnemonic\<close> consists of
  exactly 12 words, each an entry of the word list: each of the twelve 11-bit groups of the
  132-bit string has a value below 2048, and the \<open>k\<close>-th word of the text is the entry of the
  word list at the value of the \<open>k\<close>-th group.
\<close>

theorem bytes_to_mnemonic_twelve_words:
  assumes "length e = 16" "length W = 2048" "list_all plain_word W" "sha256 e \<noteq> []"
  shows "\<exists>mnemonic. bytes_to_mnemonic sha256 e W = Inr mnemonic \<and>
           length (py_split mnemonic) = 12 \<and>
           list_all (\<lambda>w. w \<in> set W) (py_split mnemonic) \<and>
           list_all (\<lambda>k. py_int2 (take 11 (drop (11 * k) (total_bits_of sha256 e))) =
                            Inr (int (group_index (total_bits_of sha256 e) k)) \<and>
                          group_index (total_bits_of sha256 e) k < 2048 \<and>
                          py_split mnemonic ! k = W ! group_index (total_bits_of sha256 e) k)
             [0..<12]"
proof -
  let ?g = "group_index (total_bits_of sha256 e)"
  let ?ws = "map (\<lambda>k. W ! ?g k) [0..<12]"
  have g: "?g k < 2048" for k by (rule group_index_less) (rule assms(1))
  have "mnemonic_words sha256 e W = Inr ?ws"
    by (rule mnemonic_words_eq) (simp_all add: assms)
  then have m: "bytes_to_mnemonic sha256 e W = Inr (join_space ?ws)"
    by (simp only: bytes_to_mnemonic_def sum.case)
  have "list_all plain_word ?ws"
    using assms(2,3) g unfolding list_all_iff by (auto simp del: upt_Suc)
  then have sp: "py_split (join_space ?ws) = ?ws" by (rule py_split_join)
  have l: "length ?ws = 12" by simp
  have mem: "list_all (\<lambda>w. w \<in> set W) ?ws"
    unfolding list_all_iff using g assms(2) by (auto simp del: upt_Suc)
  have grp: "list_all (\<lambda>k. py_int2 (take 11 (drop (11 * k) (total_bits_of sha256 e))) =
                            Inr (int (?g k)) \<and> ?g k < 2048 \<and> ?ws ! k = W ! ?g k) [0..<12]"
    unfolding list_all_iff using g group_slice [OF assms(1), of _ sha256]
    by (auto simp del: upt_Suc)
  from m l mem grp show ?thesis
    by (intro exI [of _ "join_space ?ws"]) (simp only: sp simp_thms)
qed

theorem bytes_to_mnemonic_twelve_words_witness:
  "bytes_to_mnemonic zero_digest (replicate 16 0) sample_wordlist = Inr ''a a a a a a a a a a a a'' \<and>
   length (py_split ''a a a a a a a a a a a a'') = 12 \<and>
   list_all (\<lambda>w. w \<in> set sample_wordlist) (py_split ''a a a a a a a a a a a a'')"
proof -
  have h: "length (replicate 16 (0::byte)) = 16" "length sample_wordlist = 2048"
      "list_all plain_word sample_wordlist" "zero_digest (replicate 16 0) \<noteq> []"
    by (simp_all add: zero_digest_def sample_wordlist_length sample_wordlist_plain)
  from bytes_to_mnemonic_twelve_words [of "replicate 16 0" sample_wordlist zero_digest] h
  obtain mnemonic where
    "bytes_to_mnemonic zero_digest (replicate 16 0) sample_wordlist = Inr mnemonic"
    "length (py_split mnemonic) = 12" "list_all (\<lambda>w. w \<in> set sample_wordlist) (py_split mnemonic)"
    by blast
  with zero_mnemonic show ?thesis by simp
qed

text \<open>
  C9, as the claim states it, fails: with a list of 2048 words that contain a blank, the
  returned text has 24 words, and its first word is no entry of the word list. The digest
  used here starts with the byte 0x37, as the SHA-256 digest of sixteen zero bytes does.
\<close>

theorem bytes_to_mnemonic_twelve_words_counterexample:
  "length (replicate 16 (0::byte)) = 16 \<and> length spaced_wordlist = 2048 \<and>
   bytes_to_mnemonic digest_37 (replicate 16 0) spaced_wordlist =
     Inr ''a b a b a b a b a b a b a b a b a b a b a b a bccc'' \<and>
   length (py_split ''a b a b a b a b a b a b a b a b a b a b a b a bccc'') = 24 \<and>
   py_split ''a b a b a b a b a b a b a b a b a b a b a b a bccc'' ! 0 = ''a'' \<and>
   ''a'' \<notin> set spaced_wordlist"
proof -
  have "mnemonic_words digest_37 (replicate 16 0) spaced_wordlist =
      Inr (map (\<lambda>k. spaced_wordlist ! group_index (total_bits_of digest_37 (replicate 16 0)) k) [0..<12])"
    by (rule mnemonic_words_eq) (simp_all add: digest_37_def spaced_wordlist_length)
  also have "map (\<lambda>k. spaced_wordlist ! group_index (total_bits_of digest_37 (replicate 16 0)) k) [0..<12] =
      map (\<lambda>i. spaced_wordlist ! i) (map (group_index (total_bits_of digest_37 (replicate 16 0))) [0..<12])"
    by (simp only: map_map comp_def)
  finally have "mnemonic_words digest_37 (replicate 16 0) spaced_wordlist =
      Inr (map (\<lambda>i. spaced_wordlist ! i) [0, 0, 0, 0, 0, 0, 0, 0, 0, 0, 0, 3])"
    by (simp only: digest_37_groups)
  then have enc: "bytes_to_mnemonic digest_37 (replicate 16 0) spaced_wordlist =
     Inr ''a b a b a b a b a b a b a b a b a b a b a b a bccc''"
    by (simp add: bytes_to_mnemonic_def spaced_wordlist_samples)
  have sp: "py_split ''a b a b a b a b a b a b a b a b a b a b a b a bccc'' =
      [''a'', ''b'', ''a'', ''b'', ''a'', ''b'', ''a'', ''b'', ''a'', ''b'', ''a'', ''b'',
       ''a'', ''b'', ''a'', ''b'', ''a'', ''b'', ''a'', ''b'', ''a'', ''b'', ''a'', ''bccc'']"
    by (simp add: py_split_def is_space_def)
  from enc spaced_wordlist_length spaced_wordlist_no_a show ?thesis
    by (simp add: sp)
qed

end
